theory Spec2Isabelle
  imports Main "HOL-Library.Sublist"
begin


section \<open>Object identities and the data held by each object\<close>

text \<open>
  Objects are identified by their addresses. A \<open>signals\<close> object (the emitter) owns
  \<open>m_connected_slots\<close>, a \<open>std::list\<close> of pointers to connection objects; a
  \<open>has_slots\<close> object (the receiver) owns \<open>m_senders\<close>, a \<open>std::set\<close> of emitter
  pointers. Every connection object is allocated by \<open>new\<close> and pushed into exactly one
  list, so one identity (\<open>node\<close>) names both the connection object and the list node
  holding its pointer; a list iterator is such an identity, or the past-the-end position.
  Nodes are handed out by a counter and never reused, so an iterator to an erased node
  stays recognisable. The storage of connection objects is not tracked: \<open>delete\<close> leaves
  no trace in the world.
\<close>

type_synonym emitter = nat
type_synonym receiver = nat
type_synonym memfun = nat
type_synonym node = nat

record connection =
  m_pobject :: receiver
  m_pmemfun :: memfun

type_synonym connections_list = "(node \<times> connection) list"

text \<open>A \<open>std::set\<close> of pointers: kept as an ascending list without repetitions, which is
  also the order in which the source iterates over it.\<close>

type_synonym sender_set = "emitter list"

type_synonym iterator = "node option"

record world =
  m_senders :: "receiver \<rightharpoonup> sender_set"
  m_connected_slots :: "emitter \<rightharpoonup> connections_list"
  next_node :: node

text \<open>Undefined behaviour of the C++ program is a value of the model: an iterator to an
  erased node is used, a destroyed receiver or emitter is dereferenced, or an object is
  constructed at the address of a live one.\<close>

datatype error = DanglingIterator | DanglingReceiver | DanglingEmitter | AddressInUse

text \<open>One call made by \<open>_connections::emit\<close>: target object, member function, arguments.\<close>

type_synonym 'a invocation = "receiver \<times> memfun \<times> 'a"

text \<open>The member functions bound by \<open>connect\<close> are user code. Their effect on the
  signal/slot objects is a parameter: a callable may fail, may not return, or returns the
  world it leaves behind.\<close>

type_synonym 'a callables = "memfun \<Rightarrow> receiver \<Rightarrow> 'a \<Rightarrow> world \<Rightarrow> (error + world) option"

section \<open>\<open>_connections\<close>\<close>

definition getdest :: "connection \<Rightarrow> receiver" where
  "getdest c = m_pobject c"

definition clone :: "connection \<Rightarrow> connection" where
  "clone c = \<lparr>m_pobject = m_pobject c, m_pmemfun = m_pmemfun c\<rparr>"

definition duplicate :: "receiver \<Rightarrow> connection \<Rightarrow> connection" where
  "duplicate pnewdest c = \<lparr>m_pobject = pnewdest, m_pmemfun = m_pmemfun c\<rparr>"

text \<open>The constructor \<open>_connections(pobject, pmemfun)\<close>.\<close>

definition connections :: "receiver \<Rightarrow> memfun \<Rightarrow> connection" where
  "connections pobject pmemfun = \<lparr>m_pobject = pobject, m_pmemfun = pmemfun\<rparr>"

definition invocation_of :: "'a \<Rightarrow> node \<times> connection \<Rightarrow> 'a invocation" where
  "invocation_of a nc = (m_pobject (snd nc), m_pmemfun (snd nc), a)"

text \<open>\<open>_connections::emit\<close>: \<open>(m_pobject->*m_pmemfun)(args...)\<close>.\<close>

definition conn_emit :: "'a callables \<Rightarrow> connection \<Rightarrow> 'a \<Rightarrow> world \<Rightarrow> (error + world) option" where
  "conn_emit beh c a w =
     (if m_pobject c \<in> dom (m_senders w) then beh (m_pmemfun c) (m_pobject c) a w
      else Some (Inl DanglingReceiver))"

section \<open>Containers\<close>

definition set_insert :: "emitter \<Rightarrow> sender_set \<Rightarrow> sender_set" where
  "set_insert x xs = (if x \<in> set xs then xs else insort x xs)"

definition set_erase :: "emitter \<Rightarrow> sender_set \<Rightarrow> sender_set" where
  "set_erase x xs = removeAll x xs"

definition list_begin :: "connections_list \<Rightarrow> iterator" where
  "list_begin cs = (case cs of [] \<Rightarrow> None | nc # _ \<Rightarrow> Some (fst nc))"

text \<open>\<open>++it\<close> and \<open>*it\<close> for an iterator at node \<open>n\<close>: undefined once the node is erased.\<close>

fun iter_next :: "node \<Rightarrow> connections_list \<Rightarrow> error + iterator" where
  "iter_next n [] = Inl DanglingIterator"
| "iter_next n (nc # cs) = (if fst nc = n then Inr (list_begin cs) else iter_next n cs)"

fun iter_deref :: "node \<Rightarrow> connections_list \<Rightarrow> error + connection" where
  "iter_deref n [] = Inl DanglingIterator"
| "iter_deref n (nc # cs) = (if fst nc = n then Inr (snd nc) else iter_deref n cs)"

text \<open>\<open>m_connected_slots.push_back(new ...)\<close> on the list of a live emitter.\<close>

definition push_back :: "emitter \<Rightarrow> connections_list \<Rightarrow> connection \<Rightarrow> world \<Rightarrow> world" where
  "push_back e cs c w =
     w\<lparr>m_connected_slots := (m_connected_slots w)(e \<mapsto> cs @ [(next_node w, c)]),
       next_node := Suc (next_node w)\<rparr>"

section \<open>\<open>has_slots\<close>: registration\<close>

definition signal_connect :: "receiver \<Rightarrow> emitter \<Rightarrow> world \<Rightarrow> error + world" where
  "signal_connect r sender w =
     (case m_senders w r of
        None \<Rightarrow> Inl DanglingReceiver
      | Some ss \<Rightarrow> Inr (w\<lparr>m_senders := (m_senders w)(r \<mapsto> set_insert sender ss)\<rparr>))"

definition signal_disconnect :: "receiver \<Rightarrow> emitter \<Rightarrow> world \<Rightarrow> error + world" where
  "signal_disconnect r sender w =
     (case m_senders w r of
        None \<Rightarrow> Inl DanglingReceiver
      | Some ss \<Rightarrow> Inr (w\<lparr>m_senders := (m_senders w)(r \<mapsto> set_erase sender ss)\<rparr>))"

section \<open>\<open>signals\<close>: connect and disconnect\<close>

definition connect :: "emitter \<Rightarrow> receiver \<Rightarrow> memfun \<Rightarrow> world \<Rightarrow> error + world" where
  "connect e pclass pmemfun w =
     (case m_connected_slots w e of
        None \<Rightarrow> Inl DanglingEmitter
      | Some cs \<Rightarrow>
          signal_connect pclass e
            (push_back e cs (connections pclass pmemfun) w))"

text \<open>The loop of \<open>disconnect\<close>: the list after the first connection whose \<open>getdest\<close> is
  \<open>pclass\<close> has been erased, \<open>None\<close> when the loop reaches the end without a match.\<close>

fun disconnect_scan :: "receiver \<Rightarrow> connections_list \<Rightarrow> connections_list option" where
  "disconnect_scan pclass [] = None"
| "disconnect_scan pclass (nc # cs) =
     (if getdest (snd nc) = pclass then Some cs
      else map_option (Cons nc) (disconnect_scan pclass cs))"

definition disconnect :: "emitter \<Rightarrow> receiver \<Rightarrow> world \<Rightarrow> error + world" where
  "disconnect e pclass w =
     (case m_connected_slots w e of
        None \<Rightarrow> Inl DanglingEmitter
      | Some cs \<Rightarrow>
          (case disconnect_scan pclass cs of
             None \<Rightarrow> Inr w
           | Some cs' \<Rightarrow>
               signal_disconnect pclass e
                 (w\<lparr>m_connected_slots := (m_connected_slots w)(e \<mapsto> cs')\<rparr>)))"

text \<open>\<open>_signal_bases::slot_disconnect\<close>: the loop erases every connection whose
  \<open>getdest\<close> is \<open>pslot\<close>; it touches no receiver.\<close>

fun slot_disconnect_scan :: "receiver \<Rightarrow> connections_list \<Rightarrow> connections_list" where
  "slot_disconnect_scan pslot [] = []"
| "slot_disconnect_scan pslot (nc # cs) =
     (if getdest (snd nc) = pslot then slot_disconnect_scan pslot cs
      else nc # slot_disconnect_scan pslot cs)"

definition slot_disconnect :: "emitter \<Rightarrow> receiver \<Rightarrow> world \<Rightarrow> error + world" where
  "slot_disconnect e pslot w =
     (case m_connected_slots w e of
        None \<Rightarrow> Inl DanglingEmitter
      | Some cs \<Rightarrow>
          Inr (w\<lparr>m_connected_slots := (m_connected_slots w)(e \<mapsto> slot_disconnect_scan pslot cs)\<rparr>))"

text \<open>\<open>_signal_bases::disconnect_all\<close>: one \<open>signal_disconnect\<close> per connection, in list
  order, then the list is emptied.\<close>

fun notify_all :: "emitter \<Rightarrow> connections_list \<Rightarrow> world \<Rightarrow> error + world" where
  "notify_all e [] w = Inr w"
| "notify_all e (nc # cs) w =
     (case signal_disconnect (getdest (snd nc)) e w of
        Inl err \<Rightarrow> Inl err
      | Inr w' \<Rightarrow> notify_all e cs w')"

definition disconnect_all :: "emitter \<Rightarrow> world \<Rightarrow> error + world" where
  "disconnect_all e w =
     (case m_connected_slots w e of
        None \<Rightarrow> Inl DanglingEmitter
      | Some cs \<Rightarrow>
          (case notify_all e cs w of
             Inl err \<Rightarrow> Inl err
           | Inr w' \<Rightarrow> Inr (w'\<lparr>m_connected_slots := (m_connected_slots w')(e \<mapsto> [])\<rparr>)))"

section \<open>\<open>signals\<close>: emit\<close>

text \<open>
  The loop of \<open>emit\<close> (and of \<open>operator()\<close>, whose body is the same). At an iterator
  \<open>it\<close> other than \<open>end()\<close> it computes \<open>itNext\<close>, calls the connection, and goes on
  from \<open>itNext\<close>; the list is read again at every step, since a callable may have changed
  it. A callable may connect further receivers for ever, so the loop need not return:
  \<open>None\<close> is the run that does not return.
\<close>

partial_function (option) emit_loop ::
  "'a callables \<Rightarrow> emitter \<Rightarrow> 'a \<Rightarrow> iterator \<Rightarrow> world \<Rightarrow> 'a invocation list
   \<Rightarrow> (error + world \<times> 'a invocation list) option" where
  "emit_loop beh e a it w tr =
     (case it of
        None \<Rightarrow> Some (Inr (w, tr))
      | Some n \<Rightarrow>
          (case m_connected_slots w e of
             None \<Rightarrow> Some (Inl DanglingEmitter)
           | Some cs \<Rightarrow>
               (case iter_next n cs of
                  Inl err \<Rightarrow> Some (Inl err)
                | Inr itNext \<Rightarrow>
                    (case iter_deref n cs of
                       Inl err \<Rightarrow> Some (Inl err)
                     | Inr c \<Rightarrow>
                         (case conn_emit beh c a w of
                            None \<Rightarrow> None
                          | Some (Inl err) \<Rightarrow> Some (Inl err)
                          | Some (Inr w') \<Rightarrow>
                              emit_loop beh e a itNext w'
                                (tr @ [(m_pobject c, m_pmemfun c, a)]))))))"

declare emit_loop.simps [code]

definition emit ::
  "'a callables \<Rightarrow> emitter \<Rightarrow> 'a \<Rightarrow> world \<Rightarrow> (error + world \<times> 'a invocation list) option" where
  "emit beh e a w =
     (case m_connected_slots w e of
        None \<Rightarrow> Some (Inl DanglingEmitter)
      | Some cs \<Rightarrow> emit_loop beh e a (list_begin cs) w [])"

text \<open>\<open>operator()\<close>: the same statements as \<open>emit\<close>.\<close>

definition call_operator ::
  "'a callables \<Rightarrow> emitter \<Rightarrow> 'a \<Rightarrow> world \<Rightarrow> (error + world \<times> 'a invocation list) option" where
  "call_operator beh e a w =
     (case m_connected_slots w e of
        None \<Rightarrow> Some (Inl DanglingEmitter)
      | Some cs \<Rightarrow> emit_loop beh e a (list_begin cs) w [])"

section \<open>Copying and destroying a receiver\<close>

text \<open>
  The loop of \<open>_signal_bases::slot_duplicate\<close>. \<open>push_back\<close> comes before \<open>++it\<close>, and
  \<open>itEnd\<close> is the past-the-end position, so the loop also walks over the connections
  it appends; with \<open>newtarget = oldtarget\<close> it appends for ever.
\<close>

partial_function (option) slot_duplicate_loop ::
  "emitter \<Rightarrow> receiver \<Rightarrow> receiver \<Rightarrow> iterator \<Rightarrow> world \<Rightarrow> (error + world) option" where
  "slot_duplicate_loop e oldtarget newtarget it w =
     (case it of
        None \<Rightarrow> Some (Inr w)
      | Some n \<Rightarrow>
          (case m_connected_slots w e of
             None \<Rightarrow> Some (Inl DanglingEmitter)
           | Some cs \<Rightarrow>
               (case iter_deref n cs of
                  Inl err \<Rightarrow> Some (Inl err)
                | Inr c \<Rightarrow>
                    (if getdest c = oldtarget
                     then (case iter_next n (cs @ [(next_node w, duplicate newtarget c)]) of
                             Inl err \<Rightarrow> Some (Inl err)
                           | Inr it' \<Rightarrow>
                               slot_duplicate_loop e oldtarget newtarget it'
                                 (push_back e cs (duplicate newtarget c) w))
                     else (case iter_next n cs of
                             Inl err \<Rightarrow> Some (Inl err)
                           | Inr it' \<Rightarrow> slot_duplicate_loop e oldtarget newtarget it' w)))))"

declare slot_duplicate_loop.simps [code]

definition slot_duplicate :: "emitter \<Rightarrow> receiver \<Rightarrow> receiver \<Rightarrow> world \<Rightarrow> (error + world) option" where
  "slot_duplicate e oldtarget newtarget w =
     (case m_connected_slots w e of
        None \<Rightarrow> Some (Inl DanglingEmitter)
      | Some cs \<Rightarrow> slot_duplicate_loop e oldtarget newtarget (list_begin cs) w)"

definition has_slots_new :: "receiver \<Rightarrow> world \<Rightarrow> error + world" where
  "has_slots_new this w =
     (if this \<in> dom (m_senders w) then Inl AddressInUse
      else Inr (w\<lparr>m_senders := (m_senders w)(this \<mapsto> [])\<rparr>))"

text \<open>The loop of the copy constructor \<open>has_slots(const has_slots& hs)\<close> over
  \<open>hs.m_senders\<close>: \<open>slot_duplicate\<close> on the sender, then the sender is inserted into the
  new object's own set.\<close>

fun duplicate_each :: "receiver \<Rightarrow> receiver \<Rightarrow> emitter list \<Rightarrow> world \<Rightarrow> (error + world) option" where
  "duplicate_each hs this [] w = Some (Inr w)"
| "duplicate_each hs this (s # ss) w =
     (case slot_duplicate s hs this w of
        None \<Rightarrow> None
      | Some (Inl err) \<Rightarrow> Some (Inl err)
      | Some (Inr w1) \<Rightarrow>
          (case m_senders w1 this of
             None \<Rightarrow> Some (Inl DanglingReceiver)
           | Some mine \<Rightarrow>
               duplicate_each hs this ss
                 (w1\<lparr>m_senders := (m_senders w1)(this \<mapsto> set_insert s mine)\<rparr>)))"

definition has_slots_copy :: "receiver \<Rightarrow> receiver \<Rightarrow> world \<Rightarrow> (error + world) option" where
  "has_slots_copy this hs w =
     (if this \<in> dom (m_senders w) then Some (Inl AddressInUse)
      else (case m_senders w hs of
              None \<Rightarrow> Some (Inl DanglingReceiver)
            | Some ss \<Rightarrow>
                duplicate_each hs this ss (w\<lparr>m_senders := (m_senders w)(this \<mapsto> [])\<rparr>)))"

text \<open>\<open>has_slots::disconnect_all\<close>: \<open>slot_disconnect\<close> on every sender, then the set is
  emptied. The destructor calls it and the object is gone.\<close>

fun drop_each :: "receiver \<Rightarrow> emitter list \<Rightarrow> world \<Rightarrow> error + world" where
  "drop_each this [] w = Inr w"
| "drop_each this (s # ss) w =
     (case slot_disconnect s this w of
        Inl err \<Rightarrow> Inl err
      | Inr w' \<Rightarrow> drop_each this ss w')"

definition has_slots_disconnect_all :: "receiver \<Rightarrow> world \<Rightarrow> error + world" where
  "has_slots_disconnect_all this w =
     (case m_senders w this of
        None \<Rightarrow> Inl DanglingReceiver
      | Some ss \<Rightarrow>
          (case drop_each this ss w of
             Inl err \<Rightarrow> Inl err
           | Inr w' \<Rightarrow> Inr (w'\<lparr>m_senders := (m_senders w')(this \<mapsto> [])\<rparr>)))"

definition has_slots_destroy :: "receiver \<Rightarrow> world \<Rightarrow> error + world" where
  "has_slots_destroy this w =
     (case has_slots_disconnect_all this w of
        Inl err \<Rightarrow> Inl err
      | Inr w' \<Rightarrow> Inr (w'\<lparr>m_senders := (m_senders w')(this := None)\<rparr>))"

section \<open>Constructing, copying and destroying an emitter\<close>

definition signals_new :: "emitter \<Rightarrow> world \<Rightarrow> error + world" where
  "signals_new this w =
     (if this \<in> dom (m_connected_slots w) then Inl AddressInUse
      else Inr (w\<lparr>m_connected_slots := (m_connected_slots w)(this \<mapsto> [])\<rparr>))"

text \<open>The loop of the copy constructor \<open>_signal_bases(const _signal_bases& s)\<close> over the
  source's list: register with the target, then append a clone to the new list.\<close>

fun copy_each :: "emitter \<Rightarrow> connections_list \<Rightarrow> world \<Rightarrow> error + world" where
  "copy_each this [] w = Inr w"
| "copy_each this (nc # cs) w =
     (case signal_connect (getdest (snd nc)) this w of
        Inl err \<Rightarrow> Inl err
      | Inr w1 \<Rightarrow>
          (case m_connected_slots w1 this of
             None \<Rightarrow> Inl DanglingEmitter
           | Some mine \<Rightarrow> copy_each this cs (push_back this mine (clone (snd nc)) w1)))"

definition signals_copy :: "emitter \<Rightarrow> emitter \<Rightarrow> world \<Rightarrow> error + world" where
  "signals_copy this s w =
     (if this \<in> dom (m_connected_slots w) then Inl AddressInUse
      else (case m_connected_slots w s of
              None \<Rightarrow> Inl DanglingEmitter
            | Some cs \<Rightarrow>
                copy_each this cs
                  (w\<lparr>m_connected_slots := (m_connected_slots w)(this \<mapsto> [])\<rparr>)))"

definition signals_destroy :: "emitter \<Rightarrow> world \<Rightarrow> error + world" where
  "signals_destroy this w =
     (case disconnect_all this w of
        Inl err \<Rightarrow> Inl err
      | Inr w' \<Rightarrow> Inr (w'\<lparr>m_connected_slots := (m_connected_slots w')(this := None)\<rparr>))"

section \<open>Vocabulary of the statements\<close>

text \<open>The connections of a list that target a receiver, in list order.\<close>

definition targeting :: "receiver \<Rightarrow> connections_list \<Rightarrow> connections_list" where
  "targeting r cs = filter (\<lambda>nc. getdest (snd nc) = r) cs"

text \<open>The allocator's invariant on a list: no node occurs twice and every node was
  handed out before.\<close>

definition nodes_ok :: "world \<Rightarrow> connections_list \<Rightarrow> bool" where
  "nodes_ok w cs = (distinct (map fst cs) \<and> (\<forall>nc \<in> set cs. fst nc < next_node w))"

text \<open>The connections that \<open>slot_duplicate\<close> appends for a list: one rebound clone per
  connection to \<open>old\<close>, in the order of the originals, on consecutive fresh nodes.\<close>

fun rebound :: "receiver \<Rightarrow> receiver \<Rightarrow> node \<Rightarrow> connections_list \<Rightarrow> connections_list" where
  "rebound old new k [] = []"
| "rebound old new k (nc # cs) =
     (if getdest (snd nc) = old then (k, duplicate new (snd nc)) # rebound old new (Suc k) cs
      else rebound old new k cs)"

text \<open>Every connection of the list targets a receiver that is alive.\<close>

definition targets_live :: "world \<Rightarrow> connections_list \<Rightarrow> bool" where
  "targets_live w cs = (\<forall>nc \<in> set cs. getdest (snd nc) \<in> dom (m_senders w))"

text \<open>Callables that return and leave the list \<open>cs\<close> of emitter \<open>e\<close> as it is, with its
  receivers alive: user code that does not connect to, disconnect from or destroy the
  objects of this emission.\<close>

definition keeps_list :: "'a callables \<Rightarrow> 'a \<Rightarrow> emitter \<Rightarrow> connections_list \<Rightarrow> bool" where
  "keeps_list beh a e cs =
     (\<forall>f r w. m_connected_slots w e = Some cs \<and> targets_live w cs \<longrightarrow>
        (\<exists>w'. beh f r a w = Some (Inr w') \<and> m_connected_slots w' e = Some cs
              \<and> targets_live w' cs))"


text \<open>Whether the receiver is alive and lists the emitter in its back-reference set.\<close>

definition registered :: "world \<Rightarrow> receiver \<Rightarrow> emitter \<Rightarrow> bool" where
  "registered w r e = (case m_senders w r of None \<Rightarrow> False | Some ss \<Rightarrow> e \<in> set ss)"

text \<open>
  The dispatch as the specification words it, for comparison with \<open>emit\<close>: the connections
  of the list the emission started from are taken in list order; a connection that is
  still in the emitter's list when its turn comes is called, once, and one that has been
  removed by then is passed over. The result is the world left behind and the connections
  that were called.
\<close>

fun dispatch_spec ::
  "'a callables \<Rightarrow> emitter \<Rightarrow> 'a \<Rightarrow> connections_list \<Rightarrow> world
   \<Rightarrow> (error + world \<times> connections_list) option" where
  "dispatch_spec beh e a [] w = Some (Inr (w, []))"
| "dispatch_spec beh e a (x # rest) w =
     (case m_connected_slots w e of
        None \<Rightarrow> Some (Inl DanglingEmitter)
      | Some cur \<Rightarrow>
          if x \<in> set cur
          then (case conn_emit beh (snd x) a w of
                  None \<Rightarrow> None
                | Some (Inl err) \<Rightarrow> Some (Inl err)
                | Some (Inr w') \<Rightarrow>
                    (case dispatch_spec beh e a rest w' of
                       None \<Rightarrow> None
                     | Some (Inl err) \<Rightarrow> Some (Inl err)
                     | Some (Inr (w'', called)) \<Rightarrow> Some (Inr (w'', x # called))))
          else dispatch_spec beh e a rest w)"

text \<open>
  What the callables of one emission do, followed along that emission: every callable
  that is called returns; the list it leaves is the list it found without some of its
  connections (nothing added, nothing reordered); and the connection that follows the one
  being called, whose position \<open>emit\<close> has saved, is still in it. Removing the connection
  being called, one already passed or one further down the list is allowed.
\<close>

fun spares_next :: "'a callables \<Rightarrow> emitter \<Rightarrow> 'a \<Rightarrow> connections_list \<Rightarrow> world \<Rightarrow> bool" where
  "spares_next beh e a [] w = True"
| "spares_next beh e a (x # rest) w =
     (case m_connected_slots w e of
        None \<Rightarrow> False
      | Some cur \<Rightarrow>
          if x \<in> set cur
          then (case conn_emit beh (snd x) a w of
                  Some (Inr w') \<Rightarrow>
                    (case m_connected_slots w' e of
                       None \<Rightarrow> False
                     | Some cur' \<Rightarrow>
                         cur' = filter (\<lambda>y. y \<in> set cur') cur
                         \<and> (case iter_next (fst x) cur of
                               Inr (Some m) \<Rightarrow> m \<in> fst ` set cur'
                             | _ \<Rightarrow> True)
                         \<and> spares_next beh e a rest w')
                | _ \<Rightarrow> False)
          else spares_next beh e a rest w)"

text \<open>The cross-reference relation is symmetric: a receiver lists an emitter exactly when
  the emitter's list holds at least one connection to that receiver.\<close>

definition symmetric_refs :: "world \<Rightarrow> bool" where
  "symmetric_refs w =
     (\<forall>e r. registered w r e
              = (\<exists>cs. m_connected_slots w e = Some cs \<and> targeting r cs \<noteq> []))"

section \<open>Scenarios\<close>

text \<open>A sequence of operations, stopped by the first one that fails; and the world before
  any object exists.\<close>

fun run :: "(world \<Rightarrow> error + world) list \<Rightarrow> world \<Rightarrow> error + world" where
  "run [] w = Inr w"
| "run (op # ops) w = (case op w of Inl err \<Rightarrow> Inl err | Inr w' \<Rightarrow> run ops w')"

definition world_empty :: world where
  "world_empty = \<lparr>m_senders = Map.empty, m_connected_slots = Map.empty, next_node = 0\<rparr>"

text \<open>Callables that do not touch any signal or slot object.\<close>

definition quiet :: "'a callables" where
  "quiet f r a w = Some (Inr w)"

text \<open>Callables that call \<open>disconnect\<close> on emitter \<open>e\<close>: the callable \<open>f\<close> of receiver
  \<open>r\<close> disconnects the receiver \<open>victim f r\<close>, or does nothing when there is none.\<close>

definition disconnects :: "emitter \<Rightarrow> (memfun \<Rightarrow> receiver \<Rightarrow> receiver option) \<Rightarrow> 'a callables" where
  "disconnects e victim f r a w =
     (case victim f r of None \<Rightarrow> Some (Inr w) | Some v \<Rightarrow> Some (disconnect e v w))"

text \<open>The member function 7 disconnects its own receiver; the others do nothing.\<close>

definition seven_unplugs_itself :: "memfun \<Rightarrow> receiver \<Rightarrow> receiver option" where
  "seven_unplugs_itself f r = (if f = 7 then Some r else None)"

text \<open>The member function 7 disconnects receiver 2; the others do nothing.\<close>

definition seven_unplugs_two :: "memfun \<Rightarrow> receiver \<Rightarrow> receiver option" where
  "seven_unplugs_two f r = (if f = 7 then Some 2 else None)"

text \<open>Emitter 0 with receiver 1 (member function 7) connected, then receiver 2 (member
  function 8); and the same world after receiver 1 has been disconnected.\<close>

definition world_ab :: world where
  "world_ab =
     \<lparr>m_senders = [1 \<mapsto> [0], 2 \<mapsto> [0]],
      m_connected_slots = [0 \<mapsto> [(0, connections 1 7), (1, connections 2 8)]],
      next_node = 2\<rparr>"

definition world_ab_less_a :: world where
  "world_ab_less_a =
     \<lparr>m_senders = [1 \<mapsto> [], 2 \<mapsto> [0]],
      m_connected_slots = [0 \<mapsto> [(1, connections 2 8)]],
      next_node = 2\<rparr>"

text \<open>Emitter 0 with the receivers 1, 2 and 3 connected in this order.\<close>

definition world_abc :: world where
  "world_abc =
     \<lparr>m_senders = [1 \<mapsto> [0], 2 \<mapsto> [0], 3 \<mapsto> [0]],
      m_connected_slots =
        [0 \<mapsto> [(0, connections 1 7), (1, connections 2 7), (2, connections 3 7)]],
      next_node = 3\<rparr>"

text \<open>Emitter 0 with receiver 1 connected, then receiver 2, then receiver 1 again.\<close>

definition world_aba :: world where
  "world_aba =
     \<lparr>m_senders = [1 \<mapsto> [0], 2 \<mapsto> [0]],
      m_connected_slots =
        [0 \<mapsto> [(0, connections 1 7), (1, connections 2 8), (2, connections 1 7)]],
      next_node = 3\<rparr>"

text \<open>Emitter 0 with receiver 1 connected; receiver 2 is alive and not connected.\<close>

definition world_a :: world where
  "world_a =
     \<lparr>m_senders = [1 \<mapsto> [0], 2 \<mapsto> []],
      m_connected_slots = [0 \<mapsto> [(0, connections 1 7)]],
      next_node = 1\<rparr>"

text \<open>The world \<open>world_a\<close> after \<open>slot_duplicate\<close> from receiver 1 to receiver 2 on
  emitter 0.\<close>

definition world_a_dup :: world where
  "world_a_dup =
     \<lparr>m_senders = [1 \<mapsto> [0], 2 \<mapsto> []],
      m_connected_slots = [0 \<mapsto> [(0, connections 1 7), (1, connections 2 7)]],
      next_node = 2\<rparr>"

text \<open>The world \<open>world_a\<close> after receiver 1 has been copied to a new receiver 3.\<close>

definition world_a_copied :: world where
  "world_a_copied =
     \<lparr>m_senders = [1 \<mapsto> [0], 2 \<mapsto> [], 3 \<mapsto> [0]],
      m_connected_slots = [0 \<mapsto> [(0, connections 1 7), (1, connections 3 7)]],
      next_node = 2\<rparr>"

text \<open>The world \<open>world_aba\<close> after receiver 1 has been copied to a new receiver 3.\<close>

definition world_aba_copied :: world where
  "world_aba_copied =
     \<lparr>m_senders = [1 \<mapsto> [0], 2 \<mapsto> [0], 3 \<mapsto> [0]],
      m_connected_slots =
        [0 \<mapsto> [(0, connections 1 7), (1, connections 2 8), (2, connections 1 7),
                   (3, connections 3 7), (4, connections 3 7)]],
      next_node = 5\<rparr>"

text \<open>The world \<open>world_a_copied\<close> after \<open>disconnect\<close> of the original receiver 1 from
  emitter 0.\<close>

definition world_a_copied_less_original :: world where
  "world_a_copied_less_original =
     \<lparr>m_senders = [1 \<mapsto> [], 2 \<mapsto> [], 3 \<mapsto> [0]],
      m_connected_slots = [0 \<mapsto> [(1, connections 3 7)]],
      next_node = 2\<rparr>"

text \<open>The world \<open>world_abc\<close> after emitter 0 has been copied to a new emitter 4.\<close>

definition world_abc_copied :: world where
  "world_abc_copied =
     \<lparr>m_senders = [1 \<mapsto> [0, 4], 2 \<mapsto> [0, 4], 3 \<mapsto> [0, 4]],
      m_connected_slots =
        [0 \<mapsto> [(0, connections 1 7), (1, connections 2 7), (2, connections 3 7)],
         4 \<mapsto> [(3, connections 1 7), (4, connections 2 7), (5, connections 3 7)]],
      next_node = 6\<rparr>"

text \<open>The world \<open>world_abc\<close> after receiver 2 has been destroyed.\<close>

definition world_abc_less_b :: world where
  "world_abc_less_b =
     \<lparr>m_senders = [1 \<mapsto> [0], 3 \<mapsto> [0]],
      m_connected_slots = [0 \<mapsto> [(0, connections 1 7), (2, connections 3 7)]],
      next_node = 3\<rparr>"

text \<open>An emitter 0 and a receiver 1, not connected; then receiver 1 connected once,
  connected twice, and disconnected once after that; from there, receiver 1 copied to a
  new receiver 3, or receiver 1 destroyed.\<close>

definition world_start :: world where
  "world_start = \<lparr>m_senders = [1 \<mapsto> []], m_connected_slots = [0 \<mapsto> []], next_node = 0\<rparr>"

definition world_once :: world where
  "world_once =
     \<lparr>m_senders = [1 \<mapsto> [0]],
      m_connected_slots = [0 \<mapsto> [(0, connections 1 7)]],
      next_node = 1\<rparr>"

definition world_twice :: world where
  "world_twice =
     \<lparr>m_senders = [1 \<mapsto> [0]],
      m_connected_slots = [0 \<mapsto> [(0, connections 1 7), (1, connections 1 7)]],
      next_node = 2\<rparr>"

definition world_twice_less_one :: world where
  "world_twice_less_one =
     \<lparr>m_senders = [1 \<mapsto> []],
      m_connected_slots = [0 \<mapsto> [(1, connections 1 7)]],
      next_node = 2\<rparr>"

definition world_twice_less_one_copied :: world where
  "world_twice_less_one_copied =
     \<lparr>m_senders = [1 \<mapsto> [], 3 \<mapsto> []],
      m_connected_slots = [0 \<mapsto> [(1, connections 1 7)]],
      next_node = 2\<rparr>"

definition world_dangling :: world where
  "world_dangling =
     \<lparr>m_senders = Map.empty,
      m_connected_slots = [0 \<mapsto> [(1, connections 1 7)]],
      next_node = 2\<rparr>"

text \<open>The callables of receiver 1 disconnect receiver 3; the others do nothing. And the
  world \<open>world_abc\<close> after receiver 3 has been disconnected from emitter 0.\<close>

definition one_unplugs_three :: "memfun \<Rightarrow> receiver \<Rightarrow> receiver option" where
  "one_unplugs_three f r = (if r = 1 then Some 3 else None)"

definition world_abc_less_c :: world where
  "world_abc_less_c =
     \<lparr>m_senders = [1 \<mapsto> [0], 2 \<mapsto> [0], 3 \<mapsto> []],
      m_connected_slots = [0 \<mapsto> [(0, connections 1 7), (1, connections 2 7)]],
      next_node = 3\<rparr>"

section \<open>The scenarios are worlds the operations produce\<close>

lemma world_start_reached:
  "run [signals_new 0, has_slots_new 1] world_empty = Inr world_start"
  by (simp add: signals_new_def has_slots_new_def world_empty_def world_start_def)

lemma world_a_reached:
  "run [signals_new 0, has_slots_new 1, has_slots_new 2, connect 0 1 7] world_empty
     = Inr world_a"
  by (simp add: signals_new_def has_slots_new_def connect_def signal_connect_def
      push_back_def set_insert_def world_empty_def world_a_def fun_upd_twist)

lemma world_ab_reached:
  "run [signals_new 0, has_slots_new 1, has_slots_new 2, connect 0 1 7, connect 0 2 8]
     world_empty = Inr world_ab"
  by (simp add: signals_new_def has_slots_new_def connect_def signal_connect_def
      push_back_def set_insert_def world_empty_def world_ab_def fun_upd_twist)

lemma world_aba_reached:
  "run [signals_new 0, has_slots_new 1, has_slots_new 2,
        connect 0 1 7, connect 0 2 8, connect 0 1 7] world_empty = Inr world_aba"
  by (simp add: signals_new_def has_slots_new_def connect_def signal_connect_def
      push_back_def set_insert_def world_empty_def world_aba_def fun_upd_twist numeral_2_eq_2)

lemma world_abc_reached:
  "run [signals_new 0, has_slots_new 1, has_slots_new 2, has_slots_new 3,
        connect 0 1 7, connect 0 2 7, connect 0 3 7] world_empty = Inr world_abc"
  by (simp add: signals_new_def has_slots_new_def connect_def signal_connect_def
      push_back_def set_insert_def world_empty_def world_abc_def fun_upd_twist numeral_2_eq_2)

text \<open>The destructor of an emitter unregisters it from every receiver it is connected to.\<close>

lemma signals_destroy_world_abc:
  "signals_destroy 0 world_abc
     = Inr \<lparr>m_senders = [1 \<mapsto> [], 2 \<mapsto> [], 3 \<mapsto> []],
            m_connected_slots = Map.empty, next_node = 3\<rparr>"
  by (simp add: signals_destroy_def disconnect_all_def signal_disconnect_def set_erase_def
      getdest_def connections_def world_abc_def fun_upd_twist)

section \<open>Properties of \<open>disconnect\<close>\<close>

lemma disconnect_scan_none:
  "targeting r cs = [] \<Longrightarrow> disconnect_scan r cs = None"
  by (induction cs) (auto simp: targeting_def split: if_splits)

lemma disconnect_scan_first:
  "targeting r pre = [] \<Longrightarrow> getdest (snd nc) = r \<Longrightarrow>
   disconnect_scan r (pre @ nc # post) = Some (pre @ post)"
  by (induction pre) (auto simp: targeting_def split: if_splits)

lemma disconnect_scan_some_match:
  "disconnect_scan r cs = Some cs' \<Longrightarrow> targeting r cs \<noteq> []"
  by (induction cs arbitrary: cs') (auto simp: targeting_def split: if_splits)

lemma disconnect_scan_other:
  "disconnect_scan r cs = Some cs' \<Longrightarrow> r' \<noteq> r \<Longrightarrow> targeting r' cs' = targeting r' cs"
  by (induction cs arbitrary: cs') (auto simp: targeting_def split: if_splits)

text \<open>\<open>disconnect\<close> leaves the connections to every other receiver as they are.\<close>

lemma disconnect_frame:
  assumes "m_connected_slots w e = Some cs"
    and "targeting r cs \<noteq> [] \<longrightarrow> r \<in> dom (m_senders w)"
  shows "\<exists>w1 cs1. disconnect e r w = Inr w1 \<and> m_connected_slots w1 e = Some cs1
           \<and> (\<forall>r'. r' \<noteq> r \<longrightarrow> targeting r' cs1 = targeting r' cs)"
proof (cases "disconnect_scan r cs")
  case None
  then have "disconnect e r w = Inr w" using assms(1) by (simp add: disconnect_def)
  with assms(1) show ?thesis by blast
next
  case (Some cs')
  then have "targeting r cs \<noteq> []" by (rule disconnect_scan_some_match)
  with assms(2) obtain ss where ss: "m_senders w r = Some ss" by auto
  let ?w1 = "w\<lparr>m_connected_slots := (m_connected_slots w)(e \<mapsto> cs'),
               m_senders := (m_senders w)(r \<mapsto> set_erase e ss)\<rparr>"
  have "disconnect e r w = Inr ?w1"
    using assms(1) Some ss by (simp add: disconnect_def signal_disconnect_def)
  moreover have "m_connected_slots ?w1 e = Some cs'" by simp
  moreover have "\<forall>r'. r' \<noteq> r \<longrightarrow> targeting r' cs' = targeting r' cs"
    using Some by (simp add: disconnect_scan_other)
  ultimately show ?thesis by blast
qed

text \<open>
  Claim C9. On a live emitter whose list holds no connection to the receiver,
  \<open>disconnect\<close> returns normally and returns the world it was given: the connection list,
  every back-reference set and the allocator are unchanged, so no unregistration took place.
  The receiver is not even dereferenced: the statement does not ask it to be alive.
\<close>

theorem disconnect_absent_noop:
  assumes "m_connected_slots w e = Some cs"
    and "targeting r cs = []"
  shows "disconnect e r w = Inr w"
  using assms by (simp add: disconnect_def disconnect_scan_none)

theorem disconnect_absent_noop_witness:
  "m_connected_slots world_a 0 = Some [(0, connections 1 7)]
   \<and> targeting 2 [(0, connections 1 7)] = []
   \<and> disconnect 0 2 world_a = Inr world_a"
  using disconnect_absent_noop [of world_a 0 "[(0, connections 1 7)]" 2]
  by (simp add: world_a_def targeting_def getdest_def connections_def)

text \<open>
  Claim C4. When the emitter's list is \<open>pre @ nc # post\<close>, no connection of \<open>pre\<close>
  targets the receiver and \<open>nc\<close> does, \<open>disconnect\<close> erases exactly \<open>nc\<close>: the list
  becomes \<open>pre @ post\<close>, and the result is that of the receiver's \<open>signal_disconnect\<close>
  on the world with the shortened list, which erases the emitter from the receiver's set.
  Connections to the same receiver in \<open>post\<close> stay, so the number of connections to the
  receiver drops by exactly one per call.
\<close>

theorem disconnect_removes_first:
  assumes "m_connected_slots w e = Some (pre @ nc # post)"
    and "targeting r pre = []"
    and "getdest (snd nc) = r"
    and "m_senders w r = Some ss"
  shows "disconnect e r w
           = signal_disconnect r e (w\<lparr>m_connected_slots := (m_connected_slots w)(e \<mapsto> pre @ post)\<rparr>)
       \<and> disconnect e r w
           = Inr (w\<lparr>m_connected_slots := (m_connected_slots w)(e \<mapsto> pre @ post),
                    m_senders := (m_senders w)(r \<mapsto> set_erase e ss)\<rparr>)
       \<and> e \<notin> set (set_erase e ss)
       \<and> targeting r (pre @ post) = targeting r post
       \<and> length (targeting r (pre @ nc # post)) = Suc (length (targeting r (pre @ post)))"
proof -
  have scan: "disconnect_scan r (pre @ nc # post) = Some (pre @ post)"
    using assms(2,3) by (rule disconnect_scan_first)
  have "disconnect e r w
      = signal_disconnect r e (w\<lparr>m_connected_slots := (m_connected_slots w)(e \<mapsto> pre @ post)\<rparr>)"
    using assms(1) scan by (simp add: disconnect_def)
  moreover have "signal_disconnect r e (w\<lparr>m_connected_slots := (m_connected_slots w)(e \<mapsto> pre @ post)\<rparr>)
      = Inr (w\<lparr>m_connected_slots := (m_connected_slots w)(e \<mapsto> pre @ post),
               m_senders := (m_senders w)(r \<mapsto> set_erase e ss)\<rparr>)"
    using assms(4) by (simp add: signal_disconnect_def)
  moreover have "e \<notin> set (set_erase e ss)" by (simp add: set_erase_def)
  moreover have "targeting r (pre @ post) = targeting r post"
    using assms(2) by (simp add: targeting_def)
  moreover have "length (targeting r (pre @ nc # post)) = Suc (length (targeting r (pre @ post)))"
    using assms(2,3) by (simp add: targeting_def)
  ultimately show ?thesis by simp
qed

theorem disconnect_removes_first_witness:
  "m_connected_slots world_aba 0 = Some ([] @ (0, connections 1 7) # [(1, connections 2 8), (2, connections 1 7)])
   \<and> targeting 1 [] = []
   \<and> getdest (snd (0::node, connections 1 7)) = 1
   \<and> m_senders world_aba 1 = Some [0]
   \<and> disconnect 0 1 world_aba
       = Inr \<lparr>m_senders = [1 \<mapsto> [], 2 \<mapsto> [0]],
              m_connected_slots = [0 \<mapsto> [(1, connections 2 8), (2, connections 1 7)]],
              next_node = 3\<rparr>
   \<and> targeting 1 [(1, connections 2 8), (2, connections 1 7)] = [(2, connections 1 7)]"
  using disconnect_removes_first
    [of world_aba 0 "[]" "(0, connections 1 7)" "[(1, connections 2 8), (2, connections 1 7)]" 1 "[0]"]
  by (simp add: world_aba_def targeting_def getdest_def connections_def set_erase_def
      signal_disconnect_def fun_upd_twist)

section \<open>Properties of \<open>emit\<close>\<close>

lemma iter_next_at:
  "n \<notin> fst ` set pre \<Longrightarrow> iter_next n (pre @ (n, c) # post) = Inr (list_begin post)"
  by (induction pre) auto

lemma iter_deref_at:
  "n \<notin> fst ` set pre \<Longrightarrow> iter_deref n (pre @ (n, c) # post) = Inr c"
  by (induction pre) auto

lemma emit_loop_stable:
  assumes k: "keeps_list beh a e cs" and d: "distinct (map fst cs)"
  shows "cs = pre @ post \<Longrightarrow> m_connected_slots w e = Some cs \<Longrightarrow> targets_live w cs \<Longrightarrow>
    \<exists>w'. emit_loop beh e a (list_begin post) w tr
            = Some (Inr (w', tr @ map (invocation_of a) post))
          \<and> m_connected_slots w' e = Some cs \<and> targets_live w' cs"
proof (induction post arbitrary: pre w tr)
  case Nil
  then show ?case by (simp add: list_begin_def emit_loop.simps)
next
  case (Cons nc post)
  obtain n c where nc: "nc = (n, c)" by (cases nc)
  from Cons.prems(1) d have fresh: "n \<notin> fst ` set pre" by (auto simp: nc)
  have live: "m_pobject c \<in> dom (m_senders w)"
    using Cons.prems(1,3) by (auto simp: targets_live_def nc getdest_def)
  from k Cons.prems(2,3) obtain w1 where
    b: "beh (m_pmemfun c) (m_pobject c) a w = Some (Inr w1)"
    and l1: "m_connected_slots w1 e = Some cs" and t1: "targets_live w1 cs"
    unfolding keeps_list_def by blast
  have split: "cs = (pre @ [nc]) @ post" using Cons.prems(1) by simp
  from Cons.IH[OF split l1 t1, of "tr @ [(m_pobject c, m_pmemfun c, a)]"]
  obtain w' where
    r: "emit_loop beh e a (list_begin post) w1 (tr @ [(m_pobject c, m_pmemfun c, a)])
          = Some (Inr (w', (tr @ [(m_pobject c, m_pmemfun c, a)]) @ map (invocation_of a) post))"
    and l': "m_connected_slots w' e = Some cs" and t': "targets_live w' cs" by blast
  have step: "emit_loop beh e a (Some n) w tr
      = emit_loop beh e a (list_begin post) w1 (tr @ [(m_pobject c, m_pmemfun c, a)])"
    using fresh live b Cons.prems(1,2)
    by (subst emit_loop.simps) (simp add: nc iter_next_at iter_deref_at conn_emit_def)
  show ?case using step r l' t'
    by (simp add: nc list_begin_def invocation_of_def)
qed

lemma emit_stable:
  assumes "m_connected_slots w e = Some cs"
    and "distinct (map fst cs)"
    and "targets_live w cs"
    and "keeps_list beh a e cs"
  shows "\<exists>w'. emit beh e a w = Some (Inr (w', map (invocation_of a) cs))"
proof -
  have "cs = [] @ cs" by simp
  from emit_loop_stable[OF assms(4,2) this assms(1,3), of "[]"]
  show ?thesis using assms(1) by (auto simp: emit_def)
qed

lemma filter_invocations:
  "filter (\<lambda>i. fst i = r) (map (invocation_of a) cs) = map (invocation_of a) (targeting r cs)"
  by (induction cs) (auto simp: targeting_def invocation_of_def getdest_def)

lemma map_invocation_of:
  "map (invocation_of a) cs = map (\<lambda>c. (m_pobject c, m_pmemfun c, a)) (map snd cs)"
  by (simp add: invocation_of_def)


lemma keeps_list_quiet: "keeps_list quiet a e cs"
  by (simp add: keeps_list_def quiet_def)


section \<open>Properties of \<open>slot_duplicate\<close>\<close>

lemma length_rebound: "length (rebound old new k cs) = length (targeting old cs)"
  by (induction cs arbitrary: k) (auto simp: targeting_def)

lemma map_snd_rebound:
  "map snd (rebound old new k cs) = map (\<lambda>nc. duplicate new (snd nc)) (targeting old cs)"
  by (induction cs arbitrary: k) (auto simp: targeting_def)

lemma map_fst_rebound:
  "map fst (rebound old new k cs) = [k ..< k + length (targeting old cs)]"
  by (induction cs arbitrary: k) (auto simp: targeting_def upt_rec)

lemma rebound_append:
  "rebound old new k (xs @ ys)
     = rebound old new k xs @ rebound old new (k + length (targeting old xs)) ys"
  by (induction xs arbitrary: k) (auto simp: targeting_def)

lemma rebound_none: "targeting old cs = [] \<Longrightarrow> rebound old new k cs = []"
  by (induction cs arbitrary: k) (auto simp: targeting_def split: if_splits)

lemma nodes_ok_push_back:
  assumes "nodes_ok w cs"
  shows "nodes_ok (push_back e cs' c w) (cs @ [(next_node w, c)])"
proof -
  from assms have d: "distinct (map fst cs)" and b: "\<forall>nc \<in> set cs. fst nc < next_node w"
    by (simp_all add: nodes_ok_def)
  from b have "next_node w \<notin> fst ` set cs" by auto
  with d have "distinct (map fst (cs @ [(next_node w, c)]))" by simp
  moreover from b have "\<forall>nc \<in> set (cs @ [(next_node w, c)]). fst nc < Suc (next_node w)"
    by (auto simp: less_Suc_eq)
  moreover have "next_node (push_back e cs' c w) = Suc (next_node w)"
    by (simp add: push_back_def)
  ultimately show ?thesis by (simp only: nodes_ok_def) 
qed

text \<open>Walking over connections that do not target oldtarget changes nothing.\<close>
lemma slot_duplicate_loop_skip:
  "m_connected_slots w e = Some (pre @ post) \<Longrightarrow> distinct (map fst (pre @ post)) \<Longrightarrow>
   targeting old post = [] \<Longrightarrow>
   slot_duplicate_loop e old new (list_begin post) w = Some (Inr w)"
proof (induction post arbitrary: pre)
  case Nil
  then show ?case by (simp add: list_begin_def slot_duplicate_loop.simps)
next
  case (Cons nc post)
  obtain n c where nc: "nc = (n, c)" by (cases nc)
  from Cons.prems have fresh: "n \<notin> fst ` set pre" by (auto simp: nc)
  from Cons.prems(3) have no: "getdest c \<noteq> old" and rest: "targeting old post = []"
    by (auto simp: targeting_def nc split: if_splits)
  have "slot_duplicate_loop e old new (Some n) w
          = slot_duplicate_loop e old new (list_begin post) w"
    using fresh no Cons.prems(1)
    by (subst slot_duplicate_loop.simps) (simp add: nc iter_next_at iter_deref_at)
  moreover have "slot_duplicate_loop e old new (list_begin post) w = Some (Inr w)"
    using Cons.IH[of "pre @ [nc]"] Cons.prems rest by simp
  ultimately show ?case by (simp add: list_begin_def nc)
qed

lemma slot_duplicate_loop_run:
  assumes ne: "old \<noteq> new"
  shows "m_connected_slots w e = Some (pre @ rest @ added) \<Longrightarrow>
   nodes_ok w (pre @ rest @ added) \<Longrightarrow> targeting old added = [] \<Longrightarrow>
   \<exists>w'. slot_duplicate_loop e old new (list_begin (rest @ added)) w = Some (Inr w')
     \<and> m_connected_slots w'
         = (m_connected_slots w)(e \<mapsto> pre @ rest @ added @ rebound old new (next_node w) rest)
     \<and> next_node w' = next_node w + length (targeting old rest)
     \<and> m_senders w' = m_senders w"
proof (induction rest arbitrary: pre added w)
  case Nil
  have "slot_duplicate_loop e old new (list_begin added) w = Some (Inr w)"
    using slot_duplicate_loop_skip[of w e pre added old new] Nil.prems
    by (simp add: nodes_ok_def)
  moreover have "(m_connected_slots w)(e \<mapsto> pre @ added) = m_connected_slots w"
    using Nil.prems(1) by (simp add: fun_upd_idem)
  ultimately have "slot_duplicate_loop e old new (list_begin ([] @ added)) w = Some (Inr w)"
    and "m_connected_slots w
         = (m_connected_slots w)(e \<mapsto> pre @ [] @ added @ rebound old new (next_node w) [])"
    and "next_node w = next_node w + length (targeting old [])"
    by (simp_all add: targeting_def)
  then show ?case by blast
next
  case (Cons nc rest)
  obtain n c where nc: "nc = (n, c)" by (cases nc)
  from Cons.prems(2) have fresh: "n \<notin> fst ` set pre" by (auto simp: nc nodes_ok_def)
  show ?case
  proof (cases "getdest c = old")
    case False
    have step: "slot_duplicate_loop e old new (Some n) w
          = slot_duplicate_loop e old new (list_begin (rest @ added)) w"
      using fresh False Cons.prems(1)
      by (subst slot_duplicate_loop.simps) (simp add: nc iter_next_at iter_deref_at)
    have l0: "m_connected_slots w e = Some ((pre @ [nc]) @ rest @ added)"
      using Cons.prems(1) by simp
    have ok0: "nodes_ok w ((pre @ [nc]) @ rest @ added)"
      using Cons.prems(2) by simp
    from Cons.IH[OF l0 ok0 Cons.prems(3)]
    obtain w' where r: "slot_duplicate_loop e old new (list_begin (rest @ added)) w = Some (Inr w')"
      and l: "m_connected_slots w'
         = (m_connected_slots w)(e \<mapsto> (pre @ [nc]) @ rest @ added @ rebound old new (next_node w) rest)"
      and k: "next_node w' = next_node w + length (targeting old rest)"
      and s: "m_senders w' = m_senders w"
      by blast
    have "slot_duplicate_loop e old new (list_begin ((nc # rest) @ added)) w = Some (Inr w')"
      using step r by (simp add: list_begin_def nc)
    moreover have "m_connected_slots w'
         = (m_connected_slots w)(e \<mapsto> pre @ (nc # rest) @ added @ rebound old new (next_node w) (nc # rest))"
      using l False by (simp add: nc)
    moreover have "next_node w' = next_node w + length (targeting old (nc # rest))"
      using k False by (simp add: nc targeting_def)
    ultimately show ?thesis using s by blast
  next
    case True
    let ?d = "(next_node w, duplicate new c)"
    let ?w1 = "push_back e (pre @ nc # rest @ added) (duplicate new c) w"
    have step: "slot_duplicate_loop e old new (Some n) w
          = slot_duplicate_loop e old new (list_begin (rest @ (added @ [?d]))) ?w1"
      using fresh True Cons.prems(1) iter_next_at[of n pre c "rest @ added @ [?d]"]
      by (subst slot_duplicate_loop.simps) (simp add: nc iter_deref_at)
    have l1: "m_connected_slots ?w1 e = Some ((pre @ [nc]) @ rest @ (added @ [?d]))"
      by (simp add: push_back_def)
    have ok1: "nodes_ok ?w1 ((pre @ [nc]) @ rest @ (added @ [?d]))"
      using nodes_ok_push_back[OF Cons.prems(2), of e "pre @ nc # rest @ added" "duplicate new c"]
      by simp
    have t1: "targeting old (added @ [?d]) = []"
      using Cons.prems(3) ne by (simp add: targeting_def getdest_def duplicate_def)
    from Cons.IH[OF l1 ok1 t1]
    obtain w' where r: "slot_duplicate_loop e old new (list_begin (rest @ (added @ [?d]))) ?w1 = Some (Inr w')"
      and l: "m_connected_slots w'
         = (m_connected_slots ?w1)(e \<mapsto> (pre @ [nc]) @ rest @ (added @ [?d]) @ rebound old new (next_node ?w1) rest)"
      and k: "next_node w' = next_node ?w1 + length (targeting old rest)"
      and s: "m_senders w' = m_senders ?w1"
      by blast
    have "slot_duplicate_loop e old new (list_begin ((nc # rest) @ added)) w = Some (Inr w')"
      using step r by (simp add: list_begin_def nc)
    moreover have "m_connected_slots w'
         = (m_connected_slots w)(e \<mapsto> pre @ (nc # rest) @ added @ rebound old new (next_node w) (nc # rest))"
      using l True by (simp add: nc push_back_def)
    moreover have "next_node w' = next_node w + length (targeting old (nc # rest))"
      using k True by (simp add: nc targeting_def push_back_def)
    moreover have "m_senders w' = m_senders w"
      using s by (simp add: push_back_def)
    ultimately show ?thesis by blast
  qed
qed

lemma slot_duplicate_result:
  assumes "old \<noteq> new" "m_connected_slots w e = Some cs" "nodes_ok w cs"
  shows "\<exists>w'. slot_duplicate e old new w = Some (Inr w')
     \<and> m_connected_slots w' = (m_connected_slots w)(e \<mapsto> cs @ rebound old new (next_node w) cs)
     \<and> next_node w' = next_node w + length (targeting old cs)
     \<and> m_senders w' = m_senders w"
proof -
  have "m_connected_slots w e = Some ([] @ cs @ [])" "nodes_ok w ([] @ cs @ [])"
    "targeting old [] = []"
    using assms(2,3) by (simp_all add: targeting_def)
  from slot_duplicate_loop_run[OF assms(1) this]
  obtain w' where "slot_duplicate_loop e old new (list_begin (cs @ [])) w = Some (Inr w')"
    and "m_connected_slots w'
         = (m_connected_slots w)(e \<mapsto> [] @ cs @ [] @ rebound old new (next_node w) cs)"
    and "next_node w' = next_node w + length (targeting old cs)"
    and "m_senders w' = m_senders w"
    by blast
  then have "slot_duplicate e old new w = Some (Inr w')"
    and "m_connected_slots w' = (m_connected_slots w)(e \<mapsto> cs @ rebound old new (next_node w) cs)"
    and "next_node w' = next_node w + length (targeting old cs)"
    and "m_senders w' = m_senders w"
    using assms(2) by (simp_all add: slot_duplicate_def)
  then show ?thesis by blast
qed

text \<open>
  Claim C8, as stated, fails: \<open>slot_duplicate\<close> appends the rebound clone and returns
  without touching any back-reference set. In \<open>world_a\<close>, duplicating the connections of
  receiver 1 for receiver 2 on emitter 0 leaves receiver 2's set empty.
\<close>

theorem slot_duplicate_does_not_register:
  "slot_duplicate 0 1 2 world_a = Some (Inr world_a_dup) \<and> \<not> registered world_a_dup 2 0"
  by (simp add: slot_duplicate_def slot_duplicate_loop.simps world_a_def world_a_dup_def
      list_begin_def push_back_def getdest_def duplicate_def connections_def registered_def)

text \<open>
  Claim C8, amended. For \<open>newtarget \<noteq> oldtarget\<close>, \<open>slot_duplicate\<close> returns; the
  emitter's list is the old list followed by one rebound clone (same member function,
  target \<open>newtarget\<close>) per connection to \<open>oldtarget\<close>, in the order of the originals;
  every back-reference set is as before. The registration is the caller's: one round of
  the receiver's copy constructor (\<open>slot_duplicate\<close>, then the insertion into the new
  receiver's own set) leaves the emitter registered with \<open>newtarget\<close>.
\<close>

theorem slot_duplicate_appends_only:
  assumes "oldtarget \<noteq> newtarget"
    and "m_connected_slots w e = Some cs"
    and "nodes_ok w cs"
    and "m_senders w newtarget = Some mine"
  shows "\<exists>w' dups. slot_duplicate e oldtarget newtarget w = Some (Inr w')
           \<and> m_connected_slots w' = (m_connected_slots w)(e \<mapsto> cs @ dups)
           \<and> map snd dups = map (\<lambda>nc. duplicate newtarget (snd nc)) (targeting oldtarget cs)
           \<and> m_senders w' = m_senders w
           \<and> registered w' newtarget e = registered w newtarget e
           \<and> (\<exists>w''. duplicate_each oldtarget newtarget [e] w = Some (Inr w'')
                  \<and> registered w'' newtarget e)"
proof -
  from slot_duplicate_result[OF assms(1-3)] obtain w' where
    r: "slot_duplicate e oldtarget newtarget w = Some (Inr w')"
    and l: "m_connected_slots w'
         = (m_connected_slots w)(e \<mapsto> cs @ rebound oldtarget newtarget (next_node w) cs)"
    and s: "m_senders w' = m_senders w" by blast
  let ?w2 = "w'\<lparr>m_senders := (m_senders w')(newtarget \<mapsto> set_insert e mine)\<rparr>"
  have "duplicate_each oldtarget newtarget [e] w = Some (Inr ?w2)"
    using r s assms(4) by simp
  moreover have "registered ?w2 newtarget e"
    by (simp add: registered_def set_insert_def set_insort_key)
  ultimately have "\<exists>w''. duplicate_each oldtarget newtarget [e] w = Some (Inr w'')
                  \<and> registered w'' newtarget e" by blast
  moreover have "registered w' newtarget e = registered w newtarget e"
    using s by (simp add: registered_def)
  moreover have "map snd (rebound oldtarget newtarget (next_node w) cs)
       = map (\<lambda>nc. duplicate newtarget (snd nc)) (targeting oldtarget cs)"
    by (rule map_snd_rebound)
  ultimately show ?thesis using r l s by blast
qed

theorem slot_duplicate_appends_only_witness:
  "(1::receiver) \<noteq> 2
   \<and> m_connected_slots world_a 0 = Some [(0, connections 1 7)]
   \<and> nodes_ok world_a [(0, connections 1 7)]
   \<and> m_senders world_a 2 = Some []
   \<and> (\<exists>w' dups. slot_duplicate 0 1 2 world_a = Some (Inr w')
         \<and> m_connected_slots w' = (m_connected_slots world_a)(0 \<mapsto> [(0, connections 1 7)] @ dups)
         \<and> map snd dups = [connections 2 7]
         \<and> m_senders w' = m_senders world_a
         \<and> registered w' 2 0 = False
         \<and> (\<exists>w''. duplicate_each 1 2 [0] world_a = Some (Inr w'') \<and> registered w'' 2 0))"
proof -
  have h: "(1::receiver) \<noteq> 2" "m_connected_slots world_a 0 = Some [(0, connections 1 7)]"
    "nodes_ok world_a [(0, connections 1 7)]" "m_senders world_a 2 = Some []"
    by (simp_all add: world_a_def nodes_ok_def)
  have t: "map (\<lambda>nc. duplicate 2 (snd nc)) (targeting 1 [(0::node, connections 1 7)])
             = [connections 2 7]"
    by (simp add: targeting_def getdest_def duplicate_def connections_def)
  have n: "registered world_a 2 0 = False" by (simp add: registered_def world_a_def)
  from slot_duplicate_appends_only[OF h] show ?thesis
    unfolding t n using h by blast
qed

section \<open>Properties of the receiver's copy constructor\<close>

lemma nodes_ok_mono:
  "nodes_ok w cs \<Longrightarrow> next_node w \<le> next_node w' \<Longrightarrow> nodes_ok w' cs"
  by (fastforce simp: nodes_ok_def)

lemma nodes_ok_rebound:
  assumes "nodes_ok w cs" "next_node w' = next_node w + length (targeting old cs)"
  shows "nodes_ok w' (cs @ rebound old new (next_node w) cs)"
proof -
  from assms(1) have d: "distinct (map fst cs)" and b: "\<forall>nc \<in> set cs. fst nc < next_node w"
    by (simp_all add: nodes_ok_def)
  from b have "set (map fst cs) \<inter> {next_node w ..< next_node w + length (targeting old cs)} = {}"
    by fastforce
  with d have "distinct (map fst (cs @ rebound old new (next_node w) cs))"
    by (simp add: map_fst_rebound)
  moreover have "\<forall>nc \<in> set (rebound old new (next_node w) cs). fst nc < next_node w'"
  proof
    fix nc assume "nc \<in> set (rebound old new (next_node w) cs)"
    then have "fst nc \<in> set (map fst (rebound old new (next_node w) cs))" by simp
    then show "fst nc < next_node w'" by (simp add: map_fst_rebound assms(2))
  qed
  moreover from b assms(2) have "\<forall>nc \<in> set cs. fst nc < next_node w'" by auto
  ultimately show ?thesis by (auto simp: nodes_ok_def)
qed

lemma duplicate_each_result:
  assumes ne: "hs \<noteq> this"
  shows "distinct ss \<Longrightarrow> m_senders w this = Some mine \<Longrightarrow>
    (\<forall>s \<in> set ss. \<exists>cs. m_connected_slots w s = Some cs \<and> nodes_ok w cs) \<Longrightarrow>
    \<exists>w'. duplicate_each hs this ss w = Some (Inr w')
      \<and> m_senders w' = (m_senders w)(this \<mapsto> fold set_insert ss mine)
      \<and> next_node w \<le> next_node w'
      \<and> (\<forall>e. e \<notin> set ss \<longrightarrow> m_connected_slots w' e = m_connected_slots w e)
      \<and> (\<forall>e \<in> set ss. \<exists>cs k. m_connected_slots w e = Some cs
             \<and> m_connected_slots w' e = Some (cs @ rebound hs this k cs)
             \<and> nodes_ok w' (cs @ rebound hs this k cs))"
proof (induction ss arbitrary: w mine)
  case Nil
  have "(m_senders w)(this \<mapsto> mine) = m_senders w"
    using Nil.prems(2) by (simp add: fun_upd_idem)
  then have "duplicate_each hs this [] w = Some (Inr w)"
    and "m_senders w = (m_senders w)(this \<mapsto> fold set_insert [] mine)"
    and "next_node w \<le> next_node w"
    and "\<forall>e. e \<notin> set [] \<longrightarrow> m_connected_slots w e = m_connected_slots w e"
    and "\<forall>e \<in> set []. \<exists>cs k. m_connected_slots w e = Some cs
             \<and> m_connected_slots w e = Some (cs @ rebound hs this k cs)
             \<and> nodes_ok w (cs @ rebound hs this k cs)"
    by simp_all
  then show ?case by blast
next
  case (Cons s ss)
  from Cons.prems(3) obtain cs where l: "m_connected_slots w s = Some cs"
    and ok: "nodes_ok w cs" by auto
  from slot_duplicate_result[OF ne l ok] obtain w1 where
    r1: "slot_duplicate s hs this w = Some (Inr w1)"
    and l1: "m_connected_slots w1 = (m_connected_slots w)(s \<mapsto> cs @ rebound hs this (next_node w) cs)"
    and k1: "next_node w1 = next_node w + length (targeting hs cs)"
    and s1: "m_senders w1 = m_senders w" by blast
  let ?w2 = "w1\<lparr>m_senders := (m_senders w1)(this \<mapsto> set_insert s mine)\<rparr>"
  have step: "duplicate_each hs this (s # ss) w = duplicate_each hs this ss ?w2"
    using r1 s1 Cons.prems(2) by simp
  have d: "distinct ss" and notin: "s \<notin> set ss" using Cons.prems(1) by simp_all
  have m2: "m_senders ?w2 this = Some (set_insert s mine)" by simp
  have p2: "\<forall>s' \<in> set ss. \<exists>cs'. m_connected_slots ?w2 s' = Some cs' \<and> nodes_ok ?w2 cs'"
  proof
    fix s' assume in': "s' \<in> set ss"
    with notin have "s' \<noteq> s" by auto
    from in' Cons.prems(3) obtain cs' where "m_connected_slots w s' = Some cs'"
      and "nodes_ok w cs'" by auto
    moreover have "nodes_ok ?w2 cs'" using \<open>nodes_ok w cs'\<close> k1
      by (auto intro: nodes_ok_mono)
    ultimately show "\<exists>cs'. m_connected_slots ?w2 s' = Some cs' \<and> nodes_ok ?w2 cs'"
      using l1 \<open>s' \<noteq> s\<close> by simp
  qed
  from Cons.IH[OF d m2 p2] obtain w' where
    r: "duplicate_each hs this ss ?w2 = Some (Inr w')"
    and s': "m_senders w' = (m_senders ?w2)(this \<mapsto> fold set_insert ss (set_insert s mine))"
    and k': "next_node ?w2 \<le> next_node w'"
    and o': "\<forall>e. e \<notin> set ss \<longrightarrow> m_connected_slots w' e = m_connected_slots ?w2 e"
    and i': "\<forall>e \<in> set ss. \<exists>cs k. m_connected_slots ?w2 e = Some cs
             \<and> m_connected_slots w' e = Some (cs @ rebound hs this k cs)
             \<and> nodes_ok w' (cs @ rebound hs this k cs)"
    by blast
  have "duplicate_each hs this (s # ss) w = Some (Inr w')" using step r by simp
  moreover have "m_senders w' = (m_senders w)(this \<mapsto> fold set_insert (s # ss) mine)"
    using s' s1 by simp
  moreover have "next_node w \<le> next_node w'" using k' k1 by simp
  moreover have "\<forall>e. e \<notin> set (s # ss) \<longrightarrow> m_connected_slots w' e = m_connected_slots w e"
    using o' l1 by simp
  moreover have "\<forall>e \<in> set (s # ss). \<exists>cs k. m_connected_slots w e = Some cs
             \<and> m_connected_slots w' e = Some (cs @ rebound hs this k cs)
             \<and> nodes_ok w' (cs @ rebound hs this k cs)"
  proof
    fix e assume "e \<in> set (s # ss)"
    then consider "e = s" | "e \<in> set ss" "e \<noteq> s" by auto
    then show "\<exists>cs k. m_connected_slots w e = Some cs
             \<and> m_connected_slots w' e = Some (cs @ rebound hs this k cs)
             \<and> nodes_ok w' (cs @ rebound hs this k cs)"
    proof cases
      case 1
      have "nodes_ok w1 (cs @ rebound hs this (next_node w) cs)"
        using nodes_ok_rebound[OF ok k1] .
      then have "nodes_ok w' (cs @ rebound hs this (next_node w) cs)"
        using k' by (auto intro: nodes_ok_mono)
      moreover have "m_connected_slots w' e = Some (cs @ rebound hs this (next_node w) cs)"
        using 1 o' notin l1 by simp
      ultimately show ?thesis using l 1 by blast
    next
      case 2
      from 2(1) i' obtain cs' k where "m_connected_slots ?w2 e = Some cs'"
        and "m_connected_slots w' e = Some (cs' @ rebound hs this k cs')"
        and "nodes_ok w' (cs' @ rebound hs this k cs')" by blast
      moreover have "m_connected_slots ?w2 e = m_connected_slots w e"
        using l1 2(2) by simp
      ultimately have "m_connected_slots w e = Some cs'
         \<and> m_connected_slots w' e = Some (cs' @ rebound hs this k cs')
         \<and> nodes_ok w' (cs' @ rebound hs this k cs')" by simp
      then show ?thesis by blast
    qed
  qed
  ultimately show ?case by blast
qed

lemma set_fold_set_insert: "set (fold set_insert ss mine) = set ss \<union> set mine"
  by (induction ss arbitrary: mine) (auto simp: set_insert_def set_insort_key)

lemma has_slots_copy_result:
  assumes fresh: "this \<notin> dom (m_senders w)" and hs: "m_senders w hs = Some ss"
    and d: "distinct ss"
    and lists: "\<forall>s \<in> set ss. \<exists>cs. m_connected_slots w s = Some cs \<and> nodes_ok w cs"
  shows "\<exists>w'. has_slots_copy this hs w = Some (Inr w')
      \<and> m_senders w' = (m_senders w)(this \<mapsto> fold set_insert ss [])
      \<and> (\<forall>e. e \<notin> set ss \<longrightarrow> m_connected_slots w' e = m_connected_slots w e)
      \<and> (\<forall>e \<in> set ss. \<exists>cs k. m_connected_slots w e = Some cs
             \<and> m_connected_slots w' e = Some (cs @ rebound hs this k cs)
             \<and> nodes_ok w' (cs @ rebound hs this k cs))"
proof -
  from fresh hs have ne: "hs \<noteq> this" by auto
  let ?w0 = "w\<lparr>m_senders := (m_senders w)(this \<mapsto> [])\<rparr>"
  have m0: "m_senders ?w0 this = Some []" by simp
  have p0: "\<forall>s \<in> set ss. \<exists>cs. m_connected_slots ?w0 s = Some cs \<and> nodes_ok ?w0 cs"
    using lists by (simp add: nodes_ok_def)
  from duplicate_each_result[OF ne d m0 p0] obtain w' where
    r: "duplicate_each hs this ss ?w0 = Some (Inr w')"
    and s': "m_senders w' = (m_senders ?w0)(this \<mapsto> fold set_insert ss [])"
    and o': "\<forall>e. e \<notin> set ss \<longrightarrow> m_connected_slots w' e = m_connected_slots ?w0 e"
    and i': "\<forall>e \<in> set ss. \<exists>cs k. m_connected_slots ?w0 e = Some cs
             \<and> m_connected_slots w' e = Some (cs @ rebound hs this k cs)
             \<and> nodes_ok w' (cs @ rebound hs this k cs)"
    by blast
  have "has_slots_copy this hs w = Some (Inr w')"
    using r fresh hs by (simp add: has_slots_copy_def domIff)
  moreover have "m_senders w' = (m_senders w)(this \<mapsto> fold set_insert ss [])"
    using s' by simp
  moreover have "\<forall>e. e \<notin> set ss \<longrightarrow> m_connected_slots w' e = m_connected_slots w e"
    using o' by simp
  moreover have "\<forall>e \<in> set ss. \<exists>cs k. m_connected_slots w e = Some cs
             \<and> m_connected_slots w' e = Some (cs @ rebound hs this k cs)
             \<and> nodes_ok w' (cs @ rebound hs this k cs)"
    using i' by simp
  ultimately show ?thesis by blast
qed

lemma targeting_fresh:
  "targets_live w cs \<Longrightarrow> r \<notin> dom (m_senders w) \<Longrightarrow> targeting r cs = []"
  by (induction cs) (auto simp: targeting_def targets_live_def)

lemma targeting_rebound_new: "targeting new (rebound old new k cs) = rebound old new k cs"
  by (induction cs arbitrary: k) (auto simp: targeting_def getdest_def duplicate_def)

lemma targeting_rebound_old:
  "old \<noteq> new \<Longrightarrow> targeting old (rebound old new k cs) = []"
  by (induction cs arbitrary: k) (auto simp: targeting_def getdest_def duplicate_def)

lemma targets_live_rebound:
  "new \<in> dom (m_senders w) \<Longrightarrow> targets_live w (rebound old new k cs)"
  by (induction cs arbitrary: k) (auto simp: targets_live_def getdest_def duplicate_def)

lemma targets_live_dom:
  "targets_live w cs \<Longrightarrow> dom (m_senders w) \<subseteq> dom (m_senders w') \<Longrightarrow> targets_live w' cs"
  by (auto simp: targets_live_def)

lemma targets_live_append:
  "targets_live w (xs @ ys) = (targets_live w xs \<and> targets_live w ys)"
  by (auto simp: targets_live_def)

text \<open>What the copy constructor leaves behind, for each emitter that the original lists.\<close>

lemma has_slots_copy_lists:
  assumes fresh: "this \<notin> dom (m_senders w)" and hs: "m_senders w hs = Some ss"
    and d: "distinct ss"
    and lists: "\<forall>s \<in> set ss. \<exists>cs. m_connected_slots w s = Some cs \<and> nodes_ok w cs
                   \<and> targets_live w cs"
  shows "\<exists>w'. has_slots_copy this hs w = Some (Inr w')
      \<and> m_senders w' = (m_senders w)(this \<mapsto> fold set_insert ss [])
      \<and> (\<forall>e \<in> set ss. \<exists>cs dups. m_connected_slots w e = Some cs
             \<and> m_connected_slots w' e = Some (cs @ dups)
             \<and> map snd dups = map (\<lambda>nc. duplicate this (snd nc)) (targeting hs cs)
             \<and> targeting this dups = dups \<and> targeting hs dups = []
             \<and> targeting this cs = []
             \<and> distinct (map fst (cs @ dups))
             \<and> targets_live w' (cs @ dups))"
proof -
  from fresh hs have ne: "hs \<noteq> this" by auto
  have lists': "\<forall>s \<in> set ss. \<exists>cs. m_connected_slots w s = Some cs \<and> nodes_ok w cs"
    using lists by blast
  from has_slots_copy_result[OF fresh hs d lists'] obtain w' where
    r: "has_slots_copy this hs w = Some (Inr w')"
    and s': "m_senders w' = (m_senders w)(this \<mapsto> fold set_insert ss [])"
    and i': "\<forall>e \<in> set ss. \<exists>cs k. m_connected_slots w e = Some cs
             \<and> m_connected_slots w' e = Some (cs @ rebound hs this k cs)
             \<and> nodes_ok w' (cs @ rebound hs this k cs)"
    by blast
  have sub: "dom (m_senders w) \<subseteq> dom (m_senders w')" and live: "this \<in> dom (m_senders w')"
    using s' by auto
  have "\<forall>e \<in> set ss. \<exists>cs dups. m_connected_slots w e = Some cs
             \<and> m_connected_slots w' e = Some (cs @ dups)
             \<and> map snd dups = map (\<lambda>nc. duplicate this (snd nc)) (targeting hs cs)
             \<and> targeting this dups = dups \<and> targeting hs dups = []
             \<and> targeting this cs = []
             \<and> distinct (map fst (cs @ dups))
             \<and> targets_live w' (cs @ dups)"
  proof
    fix e assume e: "e \<in> set ss"
    with i' obtain cs k where l: "m_connected_slots w e = Some cs"
      and l': "m_connected_slots w' e = Some (cs @ rebound hs this k cs)"
      and ok: "nodes_ok w' (cs @ rebound hs this k cs)" by blast
    from e lists l have tl: "targets_live w cs" by auto
    let ?dups = "rebound hs this k cs"
    have "map snd ?dups = map (\<lambda>nc. duplicate this (snd nc)) (targeting hs cs)"
      by (rule map_snd_rebound)
    moreover have "targeting this ?dups = ?dups" by (rule targeting_rebound_new)
    moreover have "targeting hs ?dups = []" using ne by (rule targeting_rebound_old)
    moreover have "targeting this cs = []" using tl fresh by (rule targeting_fresh)
    moreover have "distinct (map fst (cs @ ?dups))" using ok by (simp add: nodes_ok_def)
    moreover have "targets_live w' (cs @ ?dups)"
      using targets_live_dom[OF tl sub] targets_live_rebound[OF live]
      by (simp add: targets_live_append)
    ultimately show "\<exists>cs dups. m_connected_slots w e = Some cs
             \<and> m_connected_slots w' e = Some (cs @ dups)
             \<and> map snd dups = map (\<lambda>nc. duplicate this (snd nc)) (targeting hs cs)
             \<and> targeting this dups = dups \<and> targeting hs dups = []
             \<and> targeting this cs = []
             \<and> distinct (map fst (cs @ dups))
             \<and> targets_live w' (cs @ dups)"
      using l l' by blast
  qed
  with r s' show ?thesis by blast
qed

text \<open>
  Claim C10. Copying a receiver \<open>hs\<close> to a new receiver \<open>this\<close> returns, and every
  emitter of the original's set keeps its old list \<open>cs\<close> as a prefix, followed by the
  rebound duplicates in the order of their originals. A later \<open>emit\<close> on such an emitter
  (callables leaving the list in place) first makes every call it would have made before
  the copy, in the old order, and then the copy's calls, wherever in \<open>cs\<close> the originals
  sat.
\<close>

theorem receiver_copy_appends_at_tail:
  assumes "this \<notin> dom (m_senders w)"
    and "m_senders w hs = Some ss"
    and "distinct ss"
    and "\<forall>s \<in> set ss. \<exists>cs. m_connected_slots w s = Some cs \<and> nodes_ok w cs
            \<and> targets_live w cs"
  shows "\<exists>w'. has_slots_copy this hs w = Some (Inr w')
      \<and> (\<forall>e \<in> set ss. \<exists>cs dups. m_connected_slots w e = Some cs
             \<and> m_connected_slots w' e = Some (cs @ dups)
             \<and> map snd dups = map (\<lambda>nc. duplicate this (snd nc)) (targeting hs cs)
             \<and> (\<forall>beh (a::'a). keeps_list beh a e (cs @ dups) \<longrightarrow>
                   (\<exists>w''. emit beh e a w'
                      = Some (Inr (w'', map (invocation_of a) cs
                            @ map (\<lambda>nc. (this, m_pmemfun (snd nc), a)) (targeting hs cs))))))"
proof -
  from has_slots_copy_lists[OF assms] obtain w' where
    r: "has_slots_copy this hs w = Some (Inr w')"
    and i': "\<forall>e \<in> set ss. \<exists>cs dups. m_connected_slots w e = Some cs
             \<and> m_connected_slots w' e = Some (cs @ dups)
             \<and> map snd dups = map (\<lambda>nc. duplicate this (snd nc)) (targeting hs cs)
             \<and> targeting this dups = dups \<and> targeting hs dups = []
             \<and> targeting this cs = []
             \<and> distinct (map fst (cs @ dups))
             \<and> targets_live w' (cs @ dups)"
    by blast
  have "\<forall>e \<in> set ss. \<exists>cs dups. m_connected_slots w e = Some cs
             \<and> m_connected_slots w' e = Some (cs @ dups)
             \<and> map snd dups = map (\<lambda>nc. duplicate this (snd nc)) (targeting hs cs)
             \<and> (\<forall>beh (a::'a). keeps_list beh a e (cs @ dups) \<longrightarrow>
                   (\<exists>w''. emit beh e a w'
                      = Some (Inr (w'', map (invocation_of a) cs
                            @ map (\<lambda>nc. (this, m_pmemfun (snd nc), a)) (targeting hs cs)))))"
  proof
    fix e assume "e \<in> set ss"
    with i' obtain cs dups where l: "m_connected_slots w e = Some cs"
      and l': "m_connected_slots w' e = Some (cs @ dups)"
      and m: "map snd dups = map (\<lambda>nc. duplicate this (snd nc)) (targeting hs cs)"
      and dn: "distinct (map fst (cs @ dups))"
      and tl: "targets_live w' (cs @ dups)" by blast
    have calls: "map (invocation_of a) dups
        = map (\<lambda>nc. (this, m_pmemfun (snd nc), a)) (targeting hs cs)" for a :: 'a
      by (simp add: map_invocation_of[of a dups] m duplicate_def comp_def)
    have "\<forall>beh (a::'a). keeps_list beh a e (cs @ dups) \<longrightarrow>
                   (\<exists>w''. emit beh e a w'
                      = Some (Inr (w'', map (invocation_of a) cs
                            @ map (\<lambda>nc. (this, m_pmemfun (snd nc), a)) (targeting hs cs))))"
    proof (intro allI impI)
      fix beh :: "'a callables" and a :: 'a
      assume k: "keeps_list beh a e (cs @ dups)"
      from emit_stable[OF l' dn tl k] obtain w'' where
        "emit beh e a w' = Some (Inr (w'', map (invocation_of a) (cs @ dups)))" by blast
      then show "\<exists>w''. emit beh e a w'
                      = Some (Inr (w'', map (invocation_of a) cs
                            @ map (\<lambda>nc. (this, m_pmemfun (snd nc), a)) (targeting hs cs)))"
        by (simp add: calls)
    qed
    with l l' m show "\<exists>cs dups. m_connected_slots w e = Some cs
             \<and> m_connected_slots w' e = Some (cs @ dups)
             \<and> map snd dups = map (\<lambda>nc. duplicate this (snd nc)) (targeting hs cs)
             \<and> (\<forall>beh (a::'a). keeps_list beh a e (cs @ dups) \<longrightarrow>
                   (\<exists>w''. emit beh e a w'
                      = Some (Inr (w'', map (invocation_of a) cs
                            @ map (\<lambda>nc. (this, m_pmemfun (snd nc), a)) (targeting hs cs)))))"
      by blast
  qed
  with r show ?thesis by blast
qed

lemma has_slots_copy_world_aba:
  "has_slots_copy 3 1 world_aba = Some (Inr world_aba_copied)"
  by (simp add: has_slots_copy_def slot_duplicate_def slot_duplicate_loop.simps
      world_aba_def world_aba_copied_def list_begin_def push_back_def getdest_def
      duplicate_def connections_def set_insert_def)

theorem receiver_copy_appends_at_tail_witness:
  "3 \<notin> dom (m_senders world_aba)
   \<and> m_senders world_aba 1 = Some [0]
   \<and> distinct [0::emitter]
   \<and> m_connected_slots world_aba 0
        = Some [(0, connections 1 7), (1, connections 2 8), (2, connections 1 7)]
   \<and> nodes_ok world_aba [(0, connections 1 7), (1, connections 2 8), (2, connections 1 7)]
   \<and> targets_live world_aba [(0, connections 1 7), (1, connections 2 8), (2, connections 1 7)]
   \<and> has_slots_copy 3 1 world_aba = Some (Inr world_aba_copied)
   \<and> (\<exists>w''. emit quiet 0 (5::int) world_aba_copied
          = Some (Inr (w'', [(1, 7, 5), (2, 8, 5), (1, 7, 5), (3, 7, 5), (3, 7, 5)])))"
proof -
  let ?L = "[(0::node, connections 1 7), (1, connections 2 8), (2, connections 1 7)]"
  have h1: "3 \<notin> dom (m_senders world_aba)" by (simp add: world_aba_def)
  have h2: "m_senders world_aba 1 = Some [0]" by (simp add: world_aba_def)
  have h3: "distinct [0::emitter]" by simp
  have l: "m_connected_slots world_aba 0 = Some ?L" by (simp add: world_aba_def)
  have ok: "nodes_ok world_aba ?L" by (simp add: nodes_ok_def world_aba_def)
  have tl: "targets_live world_aba ?L"
    by (simp add: targets_live_def world_aba_def getdest_def connections_def)
  have h4: "\<forall>s \<in> set [0]. \<exists>cs. m_connected_slots world_aba s = Some cs
              \<and> nodes_ok world_aba cs \<and> targets_live world_aba cs"
    using l ok tl by simp
  from receiver_copy_appends_at_tail[OF h1 h2 h3 h4, where ?'a = int] obtain w' where
    r: "has_slots_copy 3 1 world_aba = Some (Inr w')"
    and b: "\<forall>e \<in> set [0]. \<exists>cs dups. m_connected_slots world_aba e = Some cs
             \<and> m_connected_slots w' e = Some (cs @ dups)
             \<and> map snd dups = map (\<lambda>nc. duplicate 3 (snd nc)) (targeting 1 cs)
             \<and> (\<forall>beh (a::int). keeps_list beh a e (cs @ dups) \<longrightarrow>
                   (\<exists>w''. emit beh e a w'
                      = Some (Inr (w'', map (invocation_of a) cs
                            @ map (\<lambda>nc. (3, m_pmemfun (snd nc), a)) (targeting 1 cs)))))"
    by blast
  from r have w': "w' = world_aba_copied" using has_slots_copy_world_aba by simp
  from b l obtain dups where
    "\<forall>beh (a::int). keeps_list beh a 0 (?L @ dups) \<longrightarrow>
        (\<exists>w''. emit beh 0 a w'
           = Some (Inr (w'', map (invocation_of a) ?L
                 @ map (\<lambda>nc. (3, m_pmemfun (snd nc), a)) (targeting 1 ?L))))"
    by auto
  then have "\<exists>w''. emit quiet 0 (5::int) w'
           = Some (Inr (w'', map (invocation_of 5) ?L
                 @ map (\<lambda>nc. (3, m_pmemfun (snd nc), 5)) (targeting 1 ?L)))"
    by (simp add: keeps_list_quiet)
  then have "\<exists>w''. emit quiet 0 (5::int) world_aba_copied
          = Some (Inr (w'', [(1, 7, 5), (2, 8, 5), (1, 7, 5), (3, 7, 5), (3, 7, 5)]))"
    by (simp add: w' invocation_of_def targeting_def getdest_def connections_def)
  with h1 h2 h3 l ok tl has_slots_copy_world_aba show ?thesis by blast
qed

text \<open>
  What the copy constructor does for the emitters it walks. Copying a receiver \<open>hs\<close> to a
  new receiver \<open>this\<close> returns, and for every emitter \<open>e\<close> of the original's
  back-reference set: both receivers list \<open>e\<close>; the copy is bound to the same member
  functions as the original, in the same order; in a later \<open>emit\<close> on \<open>e\<close> (callables
  leaving the list in place) the calls to the copy are those to the original, with the
  same arguments; and \<open>disconnect\<close> of either receiver from \<open>e\<close> returns and leaves the
  connections to the other one as they are.
\<close>

lemma receiver_copy_duplicates_relationship:
  assumes "this \<notin> dom (m_senders w)"
    and "m_senders w hs = Some ss"
    and "distinct ss"
    and "\<forall>s \<in> set ss. \<exists>cs. m_connected_slots w s = Some cs \<and> nodes_ok w cs
            \<and> targets_live w cs"
  shows "\<exists>w'. has_slots_copy this hs w = Some (Inr w')
      \<and> (\<forall>e \<in> set ss. registered w' hs e \<and> registered w' this e
            \<and> (\<exists>cs'. m_connected_slots w' e = Some cs'
                 \<and> map (\<lambda>nc. m_pmemfun (snd nc)) (targeting this cs')
                     = map (\<lambda>nc. m_pmemfun (snd nc)) (targeting hs cs')
                 \<and> (\<forall>beh (a::'a). keeps_list beh a e cs' \<longrightarrow>
                       (\<exists>w'' tr. emit beh e a w' = Some (Inr (w'', tr))
                          \<and> map snd (filter (\<lambda>i. fst i = this) tr)
                              = map snd (filter (\<lambda>i. fst i = hs) tr)))
                 \<and> (\<exists>w1 cs1. disconnect e hs w' = Inr w1
                        \<and> m_connected_slots w1 e = Some cs1
                        \<and> targeting this cs1 = targeting this cs')
                 \<and> (\<exists>w2 cs2. disconnect e this w' = Inr w2
                        \<and> m_connected_slots w2 e = Some cs2
                        \<and> targeting hs cs2 = targeting hs cs')))"
proof -
  from assms(1,2) have ne: "hs \<noteq> this" by auto
  from has_slots_copy_lists[OF assms] obtain w' where
    r: "has_slots_copy this hs w = Some (Inr w')"
    and s': "m_senders w' = (m_senders w)(this \<mapsto> fold set_insert ss [])"
    and i': "\<forall>e \<in> set ss. \<exists>cs dups. m_connected_slots w e = Some cs
             \<and> m_connected_slots w' e = Some (cs @ dups)
             \<and> map snd dups = map (\<lambda>nc. duplicate this (snd nc)) (targeting hs cs)
             \<and> targeting this dups = dups \<and> targeting hs dups = []
             \<and> targeting this cs = []
             \<and> distinct (map fst (cs @ dups))
             \<and> targets_live w' (cs @ dups)"
    by blast
  have live_hs: "hs \<in> dom (m_senders w')" and live_this: "this \<in> dom (m_senders w')"
    using s' assms(2) by auto
  have "\<forall>e \<in> set ss. registered w' hs e \<and> registered w' this e
            \<and> (\<exists>cs'. m_connected_slots w' e = Some cs'
                 \<and> map (\<lambda>nc. m_pmemfun (snd nc)) (targeting this cs')
                     = map (\<lambda>nc. m_pmemfun (snd nc)) (targeting hs cs')
                 \<and> (\<forall>beh (a::'a). keeps_list beh a e cs' \<longrightarrow>
                       (\<exists>w'' tr. emit beh e a w' = Some (Inr (w'', tr))
                          \<and> map snd (filter (\<lambda>i. fst i = this) tr)
                              = map snd (filter (\<lambda>i. fst i = hs) tr)))
                 \<and> (\<exists>w1 cs1. disconnect e hs w' = Inr w1
                        \<and> m_connected_slots w1 e = Some cs1
                        \<and> targeting this cs1 = targeting this cs')
                 \<and> (\<exists>w2 cs2. disconnect e this w' = Inr w2
                        \<and> m_connected_slots w2 e = Some cs2
                        \<and> targeting hs cs2 = targeting hs cs'))"
  proof
    fix e assume e: "e \<in> set ss"
    with i' obtain cs dups where l': "m_connected_slots w' e = Some (cs @ dups)"
      and m: "map snd dups = map (\<lambda>nc. duplicate this (snd nc)) (targeting hs cs)"
      and t1: "targeting this dups = dups" and t2: "targeting hs dups = []"
      and t3: "targeting this cs = []"
      and dn: "distinct (map fst (cs @ dups))"
      and tl: "targets_live w' (cs @ dups)" by blast
    let ?cs' = "cs @ dups"
    have tt: "targeting this ?cs' = dups" and th: "targeting hs ?cs' = targeting hs cs"
      using t1 t2 t3 by (simp_all add: targeting_def)
    have reg1: "registered w' hs e"
      using s' assms(2) ne e by (simp add: registered_def)
    have reg2: "registered w' this e"
      using s' e by (simp add: registered_def set_fold_set_insert)
    have "map (\<lambda>c. m_pmemfun c) (map snd dups)
        = map (\<lambda>c. m_pmemfun c) (map snd (targeting hs cs))"
      unfolding m by (simp add: duplicate_def comp_def)
    then have funs: "map (\<lambda>nc. m_pmemfun (snd nc)) (targeting this ?cs')
                     = map (\<lambda>nc. m_pmemfun (snd nc)) (targeting hs ?cs')"
      unfolding tt th by (simp add: comp_def)
    have em: "\<forall>beh (a::'a). keeps_list beh a e ?cs' \<longrightarrow>
                       (\<exists>w'' tr. emit beh e a w' = Some (Inr (w'', tr))
                          \<and> map snd (filter (\<lambda>i. fst i = this) tr)
                              = map snd (filter (\<lambda>i. fst i = hs) tr))"
    proof (intro allI impI)
      fix beh :: "'a callables" and a :: 'a
      assume k: "keeps_list beh a e ?cs'"
      from emit_stable[OF l' dn tl k] obtain w'' where
        em1: "emit beh e a w' = Some (Inr (w'', map (invocation_of a) ?cs'))" by blast
      have "map snd (map (invocation_of a) (targeting this ?cs'))
          = map (\<lambda>f. (f, a)) (map (\<lambda>nc. m_pmemfun (snd nc)) (targeting this ?cs'))"
        by (simp add: invocation_of_def comp_def)
      also have "\<dots> = map (\<lambda>f. (f, a)) (map (\<lambda>nc. m_pmemfun (snd nc)) (targeting hs ?cs'))"
        by (simp only: funs)
      also have "\<dots> = map snd (map (invocation_of a) (targeting hs ?cs'))"
        by (simp add: invocation_of_def comp_def)
      finally have "map snd (filter (\<lambda>i. fst i = this) (map (invocation_of a) ?cs'))
                  = map snd (filter (\<lambda>i. fst i = hs) (map (invocation_of a) ?cs'))"
        by (simp only: filter_invocations)
      with em1 show "\<exists>w'' tr. emit beh e a w' = Some (Inr (w'', tr))
                          \<and> map snd (filter (\<lambda>i. fst i = this) tr)
                              = map snd (filter (\<lambda>i. fst i = hs) tr)"
        by blast
    qed
    from disconnect_frame[OF l', of hs] live_hs ne[symmetric]
    have d1: "\<exists>w1 cs1. disconnect e hs w' = Inr w1 \<and> m_connected_slots w1 e = Some cs1
                        \<and> targeting this cs1 = targeting this ?cs'"
      by blast
    from disconnect_frame[OF l', of this] live_this ne
    have d2: "\<exists>w2 cs2. disconnect e this w' = Inr w2 \<and> m_connected_slots w2 e = Some cs2
                        \<and> targeting hs cs2 = targeting hs ?cs'"
      by blast
    from reg1 reg2 l' funs em d1 d2
    show "registered w' hs e \<and> registered w' this e
            \<and> (\<exists>cs'. m_connected_slots w' e = Some cs'
                 \<and> map (\<lambda>nc. m_pmemfun (snd nc)) (targeting this cs')
                     = map (\<lambda>nc. m_pmemfun (snd nc)) (targeting hs cs')
                 \<and> (\<forall>beh (a::'a). keeps_list beh a e cs' \<longrightarrow>
                       (\<exists>w'' tr. emit beh e a w' = Some (Inr (w'', tr))
                          \<and> map snd (filter (\<lambda>i. fst i = this) tr)
                              = map snd (filter (\<lambda>i. fst i = hs) tr)))
                 \<and> (\<exists>w1 cs1. disconnect e hs w' = Inr w1
                        \<and> m_connected_slots w1 e = Some cs1
                        \<and> targeting this cs1 = targeting this cs')
                 \<and> (\<exists>w2 cs2. disconnect e this w' = Inr w2
                        \<and> m_connected_slots w2 e = Some cs2
                        \<and> targeting hs cs2 = targeting hs cs'))"
      by blast
  qed
  with r show ?thesis by blast
qed

lemma has_slots_copy_world_a:
  "has_slots_copy 3 1 world_a = Some (Inr world_a_copied)"
  by (simp add: has_slots_copy_def slot_duplicate_def slot_duplicate_loop.simps
      world_a_def world_a_copied_def list_begin_def push_back_def getdest_def
      duplicate_def connections_def set_insert_def)

lemma emit_world_a_copied:
  "emit quiet 0 (5::int) world_a_copied = Some (Inr (world_a_copied, [(1, 7, 5), (3, 7, 5)]))"
  by (simp add: emit_def emit_loop.simps world_a_copied_def list_begin_def conn_emit_def
      quiet_def connections_def)

lemma disconnect_world_a_copied:
  "disconnect 0 1 world_a_copied = Inr world_a_copied_less_original"
  by (simp add: disconnect_def signal_disconnect_def world_a_copied_def
      world_a_copied_less_original_def getdest_def connections_def set_erase_def fun_upd_twist)

lemma emit_world_a_copied_less_original:
  "emit quiet 0 (5::int) world_a_copied_less_original
     = Some (Inr (world_a_copied_less_original, [(3, 7, 5)]))"
  by (simp add: emit_def emit_loop.simps world_a_copied_less_original_def list_begin_def
      conn_emit_def quiet_def connections_def)

text \<open>The scenario of one connection: receiver 1 is connected to emitter 0 and copied to
  receiver 3; both are called; after \<open>disconnect\<close> of the original only the copy is.\<close>

lemma receiver_copy_duplicates_relationship_scenario:
  "3 \<notin> dom (m_senders world_a)
   \<and> m_senders world_a 1 = Some [0]
   \<and> distinct [0::emitter]
   \<and> m_connected_slots world_a 0 = Some [(0, connections 1 7)]
   \<and> nodes_ok world_a [(0, connections 1 7)]
   \<and> targets_live world_a [(0, connections 1 7)]
   \<and> has_slots_copy 3 1 world_a = Some (Inr world_a_copied)
   \<and> registered world_a_copied 1 0 \<and> registered world_a_copied 3 0
   \<and> (\<exists>w'' tr. emit quiet 0 (5::int) world_a_copied = Some (Inr (w'', tr))
          \<and> map snd (filter (\<lambda>i. fst i = 3) tr) = map snd (filter (\<lambda>i. fst i = 1) tr))
   \<and> emit quiet 0 (5::int) world_a_copied = Some (Inr (world_a_copied, [(1, 7, 5), (3, 7, 5)]))
   \<and> disconnect 0 1 world_a_copied = Inr world_a_copied_less_original
   \<and> emit quiet 0 (5::int) world_a_copied_less_original
        = Some (Inr (world_a_copied_less_original, [(3, 7, 5)]))"
proof -
  let ?L = "[(0::node, connections 1 7)]"
  have h1: "3 \<notin> dom (m_senders world_a)" by (simp add: world_a_def)
  have h2: "m_senders world_a 1 = Some [0]" by (simp add: world_a_def)
  have h3: "distinct [0::emitter]" by simp
  have l: "m_connected_slots world_a 0 = Some ?L" by (simp add: world_a_def)
  have ok: "nodes_ok world_a ?L" by (simp add: nodes_ok_def world_a_def)
  have tl: "targets_live world_a ?L"
    by (simp add: targets_live_def world_a_def getdest_def connections_def)
  have h4: "\<forall>s \<in> set [0]. \<exists>cs. m_connected_slots world_a s = Some cs
              \<and> nodes_ok world_a cs \<and> targets_live world_a cs"
    using l ok tl by simp
  from receiver_copy_duplicates_relationship[OF h1 h2 h3 h4, where ?'a = int] obtain w' where
    r: "has_slots_copy 3 1 world_a = Some (Inr w')"
    and b: "\<forall>e \<in> set [0]. registered w' 1 e \<and> registered w' 3 e
            \<and> (\<exists>cs'. m_connected_slots w' e = Some cs'
                 \<and> map (\<lambda>nc. m_pmemfun (snd nc)) (targeting 3 cs')
                     = map (\<lambda>nc. m_pmemfun (snd nc)) (targeting 1 cs')
                 \<and> (\<forall>beh (a::int). keeps_list beh a e cs' \<longrightarrow>
                       (\<exists>w'' tr. emit beh e a w' = Some (Inr (w'', tr))
                          \<and> map snd (filter (\<lambda>i. fst i = 3) tr)
                              = map snd (filter (\<lambda>i. fst i = 1) tr)))
                 \<and> (\<exists>w1 cs1. disconnect e 1 w' = Inr w1
                        \<and> m_connected_slots w1 e = Some cs1
                        \<and> targeting 3 cs1 = targeting 3 cs')
                 \<and> (\<exists>w2 cs2. disconnect e 3 w' = Inr w2
                        \<and> m_connected_slots w2 e = Some cs2
                        \<and> targeting 1 cs2 = targeting 1 cs'))"
    by blast
  from r have w': "w' = world_a_copied" using has_slots_copy_world_a by simp
  from b have reg: "registered world_a_copied 1 0 \<and> registered world_a_copied 3 0"
    unfolding w' by simp
  from b obtain cs' where
    "\<forall>beh (a::int). keeps_list beh a 0 cs' \<longrightarrow>
        (\<exists>w'' tr. emit beh 0 a world_a_copied = Some (Inr (w'', tr))
           \<and> map snd (filter (\<lambda>i. fst i = 3) tr) = map snd (filter (\<lambda>i. fst i = 1) tr))"
    unfolding w' by auto
  then have em: "\<exists>w'' tr. emit quiet 0 (5::int) world_a_copied = Some (Inr (w'', tr))
          \<and> map snd (filter (\<lambda>i. fst i = 3) tr) = map snd (filter (\<lambda>i. fst i = 1) tr)"
    by (simp add: keeps_list_quiet)
  from h1 h2 h3 l ok tl has_slots_copy_world_a reg em emit_world_a_copied
    disconnect_world_a_copied emit_world_a_copied_less_original
  show ?thesis by blast
qed

section \<open>Properties of the emitter's copy constructor\<close>

lemma clone_same: "clone c = c"
  by (simp add: clone_def)

lemma set_set_insert: "set (set_insert x xs) = insert x (set xs)"
  by (auto simp: set_insert_def set_insort_key)

lemma targets_live_snd:
  "targets_live w cs = (\<forall>c \<in> snd ` set cs. getdest c \<in> dom (m_senders w))"
  by (auto simp: targets_live_def)

lemma upt_front: "[k ..< k + Suc n] = k # [Suc k ..< Suc k + n]"
proof -
  have "k < k + Suc n" by simp
  from upt_conv_Cons[OF this] show ?thesis by (simp only: add_Suc_right add_Suc)
qed

lemma copy_each_result:
  "m_connected_slots w this = Some mine \<Longrightarrow> targets_live w cs \<Longrightarrow>
   \<exists>w'. copy_each this cs w = Inr w'
     \<and> m_connected_slots w'
         = (m_connected_slots w)
             (this \<mapsto> mine @ zip [next_node w ..< next_node w + length cs] (map snd cs))
     \<and> next_node w' = next_node w + length cs
     \<and> (\<forall>r. map_option set (m_senders w' r)
            = (if r \<in> (\<lambda>nc. getdest (snd nc)) ` set cs
               then map_option (\<lambda>ss. insert this (set ss)) (m_senders w r)
               else map_option set (m_senders w r)))"
proof (induction cs arbitrary: w mine)
  case Nil
  have "(m_connected_slots w)(this \<mapsto> mine) = m_connected_slots w"
    using Nil.prems(1) by (simp add: fun_upd_idem)
  then have "copy_each this [] w = Inr w"
    and "m_connected_slots w
         = (m_connected_slots w)
             (this \<mapsto> mine @ zip [next_node w ..< next_node w + length []] (map snd []))"
    and "next_node w = next_node w + length []"
    and "\<forall>r. map_option set (m_senders w r)
            = (if r \<in> (\<lambda>nc. getdest (snd nc)) ` set []
               then map_option (\<lambda>ss. insert this (set ss)) (m_senders w r)
               else map_option set (m_senders w r))"
    by simp_all
  then show ?case by blast
next
  case (Cons nc cs)
  let ?r0 = "getdest (snd nc)"
  from Cons.prems(2) obtain ss0 where ss0: "m_senders w ?r0 = Some ss0"
    by (auto simp: targets_live_def)
  let ?w1 = "w\<lparr>m_senders := (m_senders w)(?r0 \<mapsto> set_insert this ss0)\<rparr>"
  let ?w2 = "push_back this mine (clone (snd nc)) ?w1"
  have step: "copy_each this (nc # cs) w = copy_each this cs ?w2"
    using ss0 Cons.prems(1) by (simp add: signal_connect_def)
  have l2: "m_connected_slots ?w2 this = Some (mine @ [(next_node w, snd nc)])"
    by (simp add: push_back_def clone_same)
  have tl2: "targets_live ?w2 cs"
    using Cons.prems(2) by (auto simp: targets_live_def push_back_def)
  from Cons.IH[OF l2 tl2] obtain w' where
    r: "copy_each this cs ?w2 = Inr w'"
    and l: "m_connected_slots w'
         = (m_connected_slots ?w2)
             (this \<mapsto> (mine @ [(next_node w, snd nc)])
                @ zip [next_node ?w2 ..< next_node ?w2 + length cs] (map snd cs))"
    and k: "next_node w' = next_node ?w2 + length cs"
    and s: "\<forall>r. map_option set (m_senders w' r)
            = (if r \<in> (\<lambda>nc. getdest (snd nc)) ` set cs
               then map_option (\<lambda>ss. insert this (set ss)) (m_senders ?w2 r)
               else map_option set (m_senders ?w2 r))"
    by blast
  have k2: "next_node ?w2 = Suc (next_node w)" by (simp add: push_back_def)
  have u: "[next_node w ..< next_node w + length (nc # cs)]
      = next_node w # [Suc (next_node w) ..< Suc (next_node w) + length cs]"
    using upt_front[of "next_node w" "length cs"] by (simp only: length_Cons)
  have "copy_each this (nc # cs) w = Inr w'" using step r by simp
  moreover have "m_connected_slots w'
         = (m_connected_slots w)
             (this \<mapsto> mine @ zip [next_node w ..< next_node w + length (nc # cs)]
                          (map snd (nc # cs)))"
    unfolding l k2 u by (simp add: push_back_def)
  moreover have "next_node w' = next_node w + length (nc # cs)"
    using k k2 by simp
  moreover have "\<forall>r. map_option set (m_senders w' r)
            = (if r \<in> (\<lambda>nc. getdest (snd nc)) ` set (nc # cs)
               then map_option (\<lambda>ss. insert this (set ss)) (m_senders w r)
               else map_option set (m_senders w r))"
  proof
    fix r
    show "map_option set (m_senders w' r)
            = (if r \<in> (\<lambda>nc. getdest (snd nc)) ` set (nc # cs)
               then map_option (\<lambda>ss. insert this (set ss)) (m_senders w r)
               else map_option set (m_senders w r))"
      using s[rule_format, of r] ss0
      by (cases "r = ?r0") (simp_all add: push_back_def set_set_insert)
  qed
  ultimately show ?case by blast
qed

text \<open>
  Claim C6. Copy-constructing an emitter \<open>this\<close> from a live emitter \<open>s\<close> returns; the
  source keeps its list; the new emitter's list holds the same connections (same receivers
  and member functions, in the same order) on nodes of its own; every receiver targeted by
  a connection lists the new emitter; and \<open>emit\<close> on the original and \<open>emit\<close> on the copy
  (callables leaving both lists in place) make the same calls.
\<close>

theorem emitter_copy_duplicates_connections:
  assumes "this \<notin> dom (m_connected_slots w)"
    and "m_connected_slots w s = Some cs"
    and "nodes_ok w cs"
    and "targets_live w cs"
  shows "\<exists>w' cs'. signals_copy this s w = Inr w'
      \<and> m_connected_slots w' s = Some cs
      \<and> m_connected_slots w' this = Some cs'
      \<and> map snd cs' = map snd cs
      \<and> set (map fst cs') \<inter> set (map fst cs) = {}
      \<and> (\<forall>nc \<in> set cs. registered w' (getdest (snd nc)) this)
      \<and> (\<forall>beh (a::'a). keeps_list beh a s cs \<and> keeps_list beh a this cs' \<longrightarrow>
            (\<exists>w1 w2. emit beh s a w' = Some (Inr (w1, map (invocation_of a) cs))
                \<and> emit beh this a w' = Some (Inr (w2, map (invocation_of a) cs))))"
proof -
  from assms(1,2) have ne: "s \<noteq> this" by auto
  let ?w0 = "w\<lparr>m_connected_slots := (m_connected_slots w)(this \<mapsto> [])\<rparr>"
  let ?k = "next_node w"
  let ?cs' = "zip [?k ..< ?k + length cs] (map snd cs)"
  have l0: "m_connected_slots ?w0 this = Some []" by simp
  have tl0: "targets_live ?w0 cs" using assms(4) by (simp add: targets_live_def)
  from copy_each_result[OF l0 tl0] obtain w' where
    r: "copy_each this cs ?w0 = Inr w'"
    and l: "m_connected_slots w' = (m_connected_slots ?w0)(this \<mapsto> [] @ ?cs')"
    and s: "\<forall>r. map_option set (m_senders w' r)
            = (if r \<in> (\<lambda>nc. getdest (snd nc)) ` set cs
               then map_option (\<lambda>ss. insert this (set ss)) (m_senders ?w0 r)
               else map_option set (m_senders ?w0 r))"
    by auto
  have res: "signals_copy this s w = Inr w'"
    using r assms(1,2) by (simp add: signals_copy_def domIff)
  have ls: "m_connected_slots w' s = Some cs" using l ne assms(2) by simp
  have lt: "m_connected_slots w' this = Some ?cs'" using l by simp
  have ms: "map snd ?cs' = map snd cs" by simp
  have mf: "map fst ?cs' = [?k ..< ?k + length cs]" by simp
  have "\<forall>nc \<in> set cs. fst nc < ?k" using assms(3) by (simp add: nodes_ok_def)
  then have disj: "set (map fst ?cs') \<inter> set (map fst cs) = {}"
    unfolding mf by fastforce
  have dom_eq: "dom (m_senders w') = dom (m_senders w)"
  proof -
    have "(m_senders w' r = None) = (m_senders w r = None)" for r
      using s[rule_format, of r] by (cases "m_senders w r"; cases "m_senders w' r")
        (simp_all split: if_splits)
    then show ?thesis by (auto simp: dom_def)
  qed
  have reg: "\<forall>nc \<in> set cs. registered w' (getdest (snd nc)) this"
  proof
    fix nc assume nc: "nc \<in> set cs"
    with assms(4) obtain ss where "m_senders w (getdest (snd nc)) = Some ss"
      by (auto simp: targets_live_def)
    with s[rule_format, of "getdest (snd nc)"] nc
    have "map_option set (m_senders w' (getdest (snd nc))) = Some (insert this (set ss))"
      by auto
    then show "registered w' (getdest (snd nc)) this"
      by (cases "m_senders w' (getdest (snd nc))") (auto simp: registered_def)
  qed
  have tls: "targets_live w' cs"
    using assms(4) dom_eq by (simp add: targets_live_def)
  have tlt: "targets_live w' ?cs'"
  proof -
    have "snd ` set ?cs' = snd ` set cs" by (metis ms set_map)
    with tls show ?thesis by (simp only: targets_live_snd)
  qed
  have ds: "distinct (map fst cs)" using assms(3) by (simp add: nodes_ok_def)
  have dt: "distinct (map fst ?cs')" unfolding mf by simp
  have em: "\<forall>beh (a::'a). keeps_list beh a s cs \<and> keeps_list beh a this ?cs' \<longrightarrow>
            (\<exists>w1 w2. emit beh s a w' = Some (Inr (w1, map (invocation_of a) cs))
                \<and> emit beh this a w' = Some (Inr (w2, map (invocation_of a) cs)))"
  proof (intro allI impI)
    fix beh :: "'a callables" and a :: 'a
    assume k: "keeps_list beh a s cs \<and> keeps_list beh a this ?cs'"
    from k have k1: "keeps_list beh a s cs" and k2: "keeps_list beh a this ?cs'"
      by simp_all
    from emit_stable[OF ls ds tls k1] obtain w1 where
      e1: "emit beh s a w' = Some (Inr (w1, map (invocation_of a) cs))" by blast
    from emit_stable[OF lt dt tlt k2] obtain w2 where
      e2: "emit beh this a w' = Some (Inr (w2, map (invocation_of a) ?cs'))" by blast
    have "map (invocation_of a) ?cs' = map (\<lambda>c. (m_pobject c, m_pmemfun c, a)) (map snd ?cs')"
      by (rule map_invocation_of)
    also have "\<dots> = map (\<lambda>c. (m_pobject c, m_pmemfun c, a)) (map snd cs)"
      by (simp only: ms)
    also have "\<dots> = map (invocation_of a) cs"
      by (rule map_invocation_of[symmetric])
    finally have eq: "map (invocation_of a) ?cs' = map (invocation_of a) cs" .
    from e2 have "emit beh this a w' = Some (Inr (w2, map (invocation_of a) cs))"
      by (simp only: eq)
    with e1 show "\<exists>w1 w2. emit beh s a w' = Some (Inr (w1, map (invocation_of a) cs))
                \<and> emit beh this a w' = Some (Inr (w2, map (invocation_of a) cs))"
      by blast
  qed
  from res ls lt ms disj reg em show ?thesis by blast
qed

lemma signals_copy_world_abc: "signals_copy 4 0 world_abc = Inr world_abc_copied"
  by (simp add: signals_copy_def signal_connect_def push_back_def clone_def getdest_def
      connections_def set_insert_def world_abc_def world_abc_copied_def fun_upd_twist)

lemma emit_world_abc_copied_original:
  "emit quiet 0 (5::int) world_abc_copied
     = Some (Inr (world_abc_copied, [(1, 7, 5), (2, 7, 5), (3, 7, 5)]))"
  by (simp add: emit_def emit_loop.simps world_abc_copied_def list_begin_def conn_emit_def
      quiet_def connections_def)

lemma emit_world_abc_copied_copy:
  "emit quiet 4 (5::int) world_abc_copied
     = Some (Inr (world_abc_copied, [(1, 7, 5), (2, 7, 5), (3, 7, 5)]))"
  by (simp add: emit_def emit_loop.simps world_abc_copied_def list_begin_def conn_emit_def
      quiet_def connections_def)

theorem emitter_copy_duplicates_connections_witness:
  "4 \<notin> dom (m_connected_slots world_abc)
   \<and> m_connected_slots world_abc 0
        = Some [(0, connections 1 7), (1, connections 2 7), (2, connections 3 7)]
   \<and> nodes_ok world_abc [(0, connections 1 7), (1, connections 2 7), (2, connections 3 7)]
   \<and> targets_live world_abc [(0, connections 1 7), (1, connections 2 7), (2, connections 3 7)]
   \<and> signals_copy 4 0 world_abc = Inr world_abc_copied
   \<and> m_connected_slots world_abc_copied 4
        = Some [(3, connections 1 7), (4, connections 2 7), (5, connections 3 7)]
   \<and> registered world_abc_copied 1 4 \<and> registered world_abc_copied 2 4
   \<and> registered world_abc_copied 3 4
   \<and> (\<exists>w1 w2. emit quiet 0 (5::int) world_abc_copied
                  = Some (Inr (w1, [(1, 7, 5), (2, 7, 5), (3, 7, 5)]))
          \<and> emit quiet 4 (5::int) world_abc_copied
                  = Some (Inr (w2, [(1, 7, 5), (2, 7, 5), (3, 7, 5)])))"
proof -
  let ?L = "[(0::node, connections 1 7), (1, connections 2 7), (2, connections 3 7)]"
  have h1: "4 \<notin> dom (m_connected_slots world_abc)" by (simp add: world_abc_def)
  have h2: "m_connected_slots world_abc 0 = Some ?L" by (simp add: world_abc_def)
  have h3: "nodes_ok world_abc ?L" by (simp add: nodes_ok_def world_abc_def)
  have h4: "targets_live world_abc ?L"
    by (simp add: targets_live_def world_abc_def getdest_def connections_def)
  from emitter_copy_duplicates_connections[OF h1 h2 h3 h4, where ?'a = int]
  obtain w' cs' where r: "signals_copy 4 0 world_abc = Inr w'"
    and lt: "m_connected_slots w' 4 = Some cs'"
    and reg: "\<forall>nc \<in> set ?L. registered w' (getdest (snd nc)) 4"
    and em: "\<forall>beh (a::int). keeps_list beh a 0 ?L \<and> keeps_list beh a 4 cs' \<longrightarrow>
            (\<exists>w1 w2. emit beh 0 a w' = Some (Inr (w1, map (invocation_of a) ?L))
                \<and> emit beh 4 a w' = Some (Inr (w2, map (invocation_of a) ?L)))"
    by blast
  from r have w': "w' = world_abc_copied" using signals_copy_world_abc by simp
  from lt have c1: "m_connected_slots world_abc_copied 4
        = Some [(3, connections 1 7), (4, connections 2 7), (5, connections 3 7)]"
    by (simp add: world_abc_copied_def)
  from reg have c2: "registered world_abc_copied 1 4 \<and> registered world_abc_copied 2 4
      \<and> registered world_abc_copied 3 4"
    unfolding w' by (simp add: getdest_def connections_def)
  from em have "\<exists>w1 w2. emit quiet 0 (5::int) w' = Some (Inr (w1, map (invocation_of 5) ?L))
                \<and> emit quiet 4 (5::int) w' = Some (Inr (w2, map (invocation_of 5) ?L))"
    by (simp add: keeps_list_quiet)
  then have c3: "\<exists>w1 w2. emit quiet 0 (5::int) world_abc_copied
                  = Some (Inr (w1, [(1, 7, 5), (2, 7, 5), (3, 7, 5)]))
          \<and> emit quiet 4 (5::int) world_abc_copied
                  = Some (Inr (w2, [(1, 7, 5), (2, 7, 5), (3, 7, 5)]))"
    unfolding w' by (simp add: invocation_of_def connections_def)
  from h1 h2 h3 h4 signals_copy_world_abc c1 c2 c3 show ?thesis by simp
qed

section \<open>Properties of the receiver's destructor\<close>

lemma slot_disconnect_scan_filter:
  "slot_disconnect_scan r cs = filter (\<lambda>nc. getdest (snd nc) \<noteq> r) cs"
  by (induction cs) simp_all

lemma slot_disconnect_scan_idem:
  "slot_disconnect_scan r (slot_disconnect_scan r cs) = slot_disconnect_scan r cs"
  by (simp add: slot_disconnect_scan_filter)

text \<open>\<open>slot_disconnect\<close> on a live emitter returns, whether or not the receiver is alive,
  and leaves every back-reference set as it is.\<close>

lemma slot_disconnect_result:
  assumes "m_connected_slots v e = Some cs"
  shows "\<exists>v'. slot_disconnect e r v = Inr v' \<and> m_senders v' = m_senders v
           \<and> next_node v' = next_node v
           \<and> m_connected_slots v' = (m_connected_slots v)(e \<mapsto> slot_disconnect_scan r cs)"
proof -
  let ?v' = "v\<lparr>m_connected_slots := (m_connected_slots v)(e \<mapsto> slot_disconnect_scan r cs)\<rparr>"
  have "slot_disconnect e r v = Inr ?v'" using assms by (simp add: slot_disconnect_def)
  moreover have "m_senders ?v' = m_senders v" by simp
  moreover have "next_node ?v' = next_node v" by simp
  moreover have "m_connected_slots ?v'
      = (m_connected_slots v)(e \<mapsto> slot_disconnect_scan r cs)" by simp
  ultimately show ?thesis by blast
qed

lemma drop_each_result:
  "\<forall>s \<in> set ss. s \<in> dom (m_connected_slots w) \<Longrightarrow>
   \<exists>w'. drop_each r ss w = Inr w' \<and> m_senders w' = m_senders w
     \<and> next_node w' = next_node w
     \<and> (\<forall>e. m_connected_slots w' e
            = (if e \<in> set ss then map_option (slot_disconnect_scan r) (m_connected_slots w e)
               else m_connected_slots w e))"
proof (induction ss arbitrary: w)
  case Nil
  have "drop_each r [] w = Inr w" by simp
  then show ?case by auto
next
  case (Cons s ss)
  from Cons.prems obtain cs where l: "m_connected_slots w s = Some cs" by auto
  from slot_disconnect_result[OF l, of r] obtain w1 where
    r1: "slot_disconnect s r w = Inr w1" and s1: "m_senders w1 = m_senders w"
    and k1: "next_node w1 = next_node w"
    and l1: "m_connected_slots w1 = (m_connected_slots w)(s \<mapsto> slot_disconnect_scan r cs)"
    by blast
  have p1: "\<forall>s' \<in> set ss. s' \<in> dom (m_connected_slots w1)"
    using Cons.prems l1 by auto
  from Cons.IH[OF p1] obtain w' where
    r': "drop_each r ss w1 = Inr w'" and s': "m_senders w' = m_senders w1"
    and k': "next_node w' = next_node w1"
    and l': "\<forall>e. m_connected_slots w' e
            = (if e \<in> set ss then map_option (slot_disconnect_scan r) (m_connected_slots w1 e)
               else m_connected_slots w1 e)"
    by blast
  have "drop_each r (s # ss) w = Inr w'" using r1 r' by simp
  moreover have "m_senders w' = m_senders w" using s' s1 by simp
  moreover have "next_node w' = next_node w" using k' k1 by simp
  moreover have "\<forall>e. m_connected_slots w' e
            = (if e \<in> set (s # ss)
               then map_option (slot_disconnect_scan r) (m_connected_slots w e)
               else m_connected_slots w e)"
  proof
    fix e
    show "m_connected_slots w' e
            = (if e \<in> set (s # ss)
               then map_option (slot_disconnect_scan r) (m_connected_slots w e)
               else m_connected_slots w e)"
      using l'[rule_format, of e] l l1
      by (cases "e = s") (simp_all add: slot_disconnect_scan_idem)
  qed
  ultimately show ?case by blast
qed

lemma targeting_filter_other:
  "targeting r (filter (\<lambda>nc. getdest (snd nc) \<noteq> r) cs) = []"
  by (induction cs) (simp_all add: targeting_def)

text \<open>
  Claim C5. Destroying a receiver \<open>r\<close> whose back-reference set is \<open>ss\<close> returns. The
  emitter-side removals (\<open>drop_each\<close>, one \<open>slot_disconnect\<close> per listed emitter) leave
  every back-reference set untouched, and \<open>slot_disconnect\<close> returns on any live emitter
  without reading the receiver. Afterwards the receiver is gone, every listed emitter has
  lost exactly its connections to \<open>r\<close>, and a later \<open>emit\<close> on such an emitter (callables
  leaving the list in place) returns and makes no call to \<open>r\<close>.
\<close>

theorem receiver_destroy_drops_connections:
  assumes "m_senders w r = Some ss"
    and "\<forall>s \<in> set ss. \<exists>cs. m_connected_slots w s = Some cs \<and> distinct (map fst cs)
            \<and> targets_live w cs"
  shows "\<exists>w1 w'. drop_each r ss w = Inr w1 \<and> m_senders w1 = m_senders w
      \<and> has_slots_destroy r w = Inr w'
      \<and> m_senders w' = (m_senders w)(r := None)
      \<and> (\<forall>e \<in> set ss. \<exists>cs. m_connected_slots w e = Some cs
            \<and> m_connected_slots w' e = Some (filter (\<lambda>nc. getdest (snd nc) \<noteq> r) cs)
            \<and> targeting r (filter (\<lambda>nc. getdest (snd nc) \<noteq> r) cs) = []
            \<and> (\<forall>beh (a::'a).
                  keeps_list beh a e (filter (\<lambda>nc. getdest (snd nc) \<noteq> r) cs) \<longrightarrow>
                  (\<exists>w'' tr. emit beh e a w' = Some (Inr (w'', tr))
                     \<and> tr = map (invocation_of a) (filter (\<lambda>nc. getdest (snd nc) \<noteq> r) cs)
                     \<and> r \<notin> fst ` set tr)))
      \<and> (\<forall>e v cs. m_connected_slots v e = Some cs \<longrightarrow>
            (\<exists>v'. slot_disconnect e r v = Inr v' \<and> m_senders v' = m_senders v))"
proof -
  have live: "\<forall>s \<in> set ss. s \<in> dom (m_connected_slots w)" using assms(2) by auto
  from drop_each_result[OF live, of r] obtain w1 where
    r1: "drop_each r ss w = Inr w1" and s1: "m_senders w1 = m_senders w"
    and l1: "\<forall>e. m_connected_slots w1 e
            = (if e \<in> set ss then map_option (slot_disconnect_scan r) (m_connected_slots w e)
               else m_connected_slots w e)"
    by blast
  let ?w' = "w1\<lparr>m_senders := (m_senders w)(r := None)\<rparr>"
  have res: "has_slots_destroy r w = Inr ?w'"
    using assms(1) r1 s1 by (simp add: has_slots_destroy_def has_slots_disconnect_all_def)
  have sw: "m_senders ?w' = (m_senders w)(r := None)" by simp
  have each: "\<forall>e \<in> set ss. \<exists>cs. m_connected_slots w e = Some cs
            \<and> m_connected_slots ?w' e = Some (filter (\<lambda>nc. getdest (snd nc) \<noteq> r) cs)
            \<and> targeting r (filter (\<lambda>nc. getdest (snd nc) \<noteq> r) cs) = []
            \<and> (\<forall>beh (a::'a).
                  keeps_list beh a e (filter (\<lambda>nc. getdest (snd nc) \<noteq> r) cs) \<longrightarrow>
                  (\<exists>w'' tr. emit beh e a ?w' = Some (Inr (w'', tr))
                     \<and> tr = map (invocation_of a) (filter (\<lambda>nc. getdest (snd nc) \<noteq> r) cs)
                     \<and> r \<notin> fst ` set tr))"
  proof
    fix e assume e: "e \<in> set ss"
    with assms(2) obtain cs where l: "m_connected_slots w e = Some cs"
      and d: "distinct (map fst cs)" and tl: "targets_live w cs" by blast
    let ?cs' = "filter (\<lambda>nc. getdest (snd nc) \<noteq> r) cs"
    have l': "m_connected_slots ?w' e = Some ?cs'"
      using l1[rule_format, of e] e l by (simp add: slot_disconnect_scan_filter)
    have d': "distinct (map fst ?cs')" using d by (rule distinct_map_filter)
    have tl': "targets_live ?w' ?cs'" using tl by (auto simp: targets_live_def)
    have nor: "r \<notin> fst ` set (map (invocation_of a) ?cs')" for a :: 'a
      by (auto simp: invocation_of_def getdest_def)
    have em: "\<forall>beh (a::'a). keeps_list beh a e ?cs' \<longrightarrow>
                  (\<exists>w'' tr. emit beh e a ?w' = Some (Inr (w'', tr))
                     \<and> tr = map (invocation_of a) ?cs' \<and> r \<notin> fst ` set tr)"
    proof (intro allI impI)
      fix beh :: "'a callables" and a :: 'a
      assume k: "keeps_list beh a e ?cs'"
      from emit_stable[OF l' d' tl' k] obtain w'' where
        "emit beh e a ?w' = Some (Inr (w'', map (invocation_of a) ?cs'))" by blast
      with nor[of a] show "\<exists>w'' tr. emit beh e a ?w' = Some (Inr (w'', tr))
                     \<and> tr = map (invocation_of a) ?cs' \<and> r \<notin> fst ` set tr"
        by blast
    qed
    have "targeting r ?cs' = []" by (rule targeting_filter_other)
    with l l' em show "\<exists>cs. m_connected_slots w e = Some cs
            \<and> m_connected_slots ?w' e = Some (filter (\<lambda>nc. getdest (snd nc) \<noteq> r) cs)
            \<and> targeting r (filter (\<lambda>nc. getdest (snd nc) \<noteq> r) cs) = []
            \<and> (\<forall>beh (a::'a).
                  keeps_list beh a e (filter (\<lambda>nc. getdest (snd nc) \<noteq> r) cs) \<longrightarrow>
                  (\<exists>w'' tr. emit beh e a ?w' = Some (Inr (w'', tr))
                     \<and> tr = map (invocation_of a) (filter (\<lambda>nc. getdest (snd nc) \<noteq> r) cs)
                     \<and> r \<notin> fst ` set tr))"
      by blast
  qed
  have nocall: "\<forall>e v cs. m_connected_slots v e = Some cs \<longrightarrow>
            (\<exists>v'. slot_disconnect e r v = Inr v' \<and> m_senders v' = m_senders v)"
    using slot_disconnect_result by blast
  from r1 s1 res sw each nocall show ?thesis by blast
qed

lemma has_slots_destroy_world_abc: "has_slots_destroy 2 world_abc = Inr world_abc_less_b"
  by (simp add: has_slots_destroy_def has_slots_disconnect_all_def slot_disconnect_def
      getdest_def connections_def world_abc_def world_abc_less_b_def fun_eq_iff)

lemma emit_world_abc_less_b:
  "emit quiet 0 (5::int) world_abc_less_b
     = Some (Inr (world_abc_less_b, [(1, 7, 5), (3, 7, 5)]))"
  by (simp add: emit_def emit_loop.simps world_abc_less_b_def list_begin_def conn_emit_def
      quiet_def connections_def)

theorem receiver_destroy_drops_connections_witness:
  "m_senders world_abc 2 = Some [0]
   \<and> m_connected_slots world_abc 0
        = Some [(0, connections 1 7), (1, connections 2 7), (2, connections 3 7)]
   \<and> distinct (map fst [(0::node, connections 1 7), (1, connections 2 7), (2, connections 3 7)])
   \<and> targets_live world_abc [(0, connections 1 7), (1, connections 2 7), (2, connections 3 7)]
   \<and> has_slots_destroy 2 world_abc = Inr world_abc_less_b
   \<and> m_connected_slots world_abc_less_b 0 = Some [(0, connections 1 7), (2, connections 3 7)]
   \<and> (\<exists>w'' tr. emit quiet 0 (5::int) world_abc_less_b = Some (Inr (w'', tr))
          \<and> tr = [(1, 7, 5), (3, 7, 5)] \<and> 2 \<notin> fst ` set tr)"
proof -
  let ?L = "[(0::node, connections 1 7), (1, connections 2 7), (2, connections 3 7)]"
  have h1: "m_senders world_abc 2 = Some [0]" by (simp add: world_abc_def)
  have l: "m_connected_slots world_abc 0 = Some ?L" by (simp add: world_abc_def)
  have d: "distinct (map fst ?L)" by simp
  have tl: "targets_live world_abc ?L"
    by (simp add: targets_live_def world_abc_def getdest_def connections_def)
  have h2: "\<forall>s \<in> set [0]. \<exists>cs. m_connected_slots world_abc s = Some cs
              \<and> distinct (map fst cs) \<and> targets_live world_abc cs"
    using l d tl by simp
  have f: "filter (\<lambda>nc. getdest (snd nc) \<noteq> 2) ?L = [(0, connections 1 7), (2, connections 3 7)]"
    by (simp add: getdest_def connections_def)
  from receiver_destroy_drops_connections[OF h1 h2, where ?'a = int] obtain w' where
    r: "has_slots_destroy 2 world_abc = Inr w'"
    and b: "\<forall>e \<in> set [0]. \<exists>cs. m_connected_slots world_abc e = Some cs
            \<and> m_connected_slots w' e = Some (filter (\<lambda>nc. getdest (snd nc) \<noteq> 2) cs)
            \<and> targeting 2 (filter (\<lambda>nc. getdest (snd nc) \<noteq> 2) cs) = []
            \<and> (\<forall>beh (a::int).
                  keeps_list beh a e (filter (\<lambda>nc. getdest (snd nc) \<noteq> 2) cs) \<longrightarrow>
                  (\<exists>w'' tr. emit beh e a w' = Some (Inr (w'', tr))
                     \<and> tr = map (invocation_of a) (filter (\<lambda>nc. getdest (snd nc) \<noteq> 2) cs)
                     \<and> 2 \<notin> fst ` set tr))"
    by blast
  from r have w': "w' = world_abc_less_b" using has_slots_destroy_world_abc by simp
  have in0: "(0::emitter) \<in> set [0]" by simp
  from bspec[OF b in0] obtain cs where lc: "m_connected_slots world_abc 0 = Some cs"
    and lw: "m_connected_slots w' 0 = Some (filter (\<lambda>nc. getdest (snd nc) \<noteq> 2) cs)"
    and em: "\<forall>beh (a::int).
                  keeps_list beh a 0 (filter (\<lambda>nc. getdest (snd nc) \<noteq> 2) cs) \<longrightarrow>
                  (\<exists>w'' tr. emit beh 0 a w' = Some (Inr (w'', tr))
                     \<and> tr = map (invocation_of a) (filter (\<lambda>nc. getdest (snd nc) \<noteq> 2) cs)
                     \<and> 2 \<notin> fst ` set tr)"
    by blast
  from lc l have cs: "cs = ?L" by simp
  have kq: "keeps_list quiet (5::int) 0 (filter (\<lambda>nc. getdest (snd nc) \<noteq> 2) ?L)"
    by (rule keeps_list_quiet)
  from lw have c1: "m_connected_slots world_abc_less_b 0
      = Some [(0, connections 1 7), (2, connections 3 7)]"
    unfolding w' cs f .
  from em[unfolded cs, rule_format, OF kq]
  have "\<exists>w'' tr. emit quiet 0 (5::int) w' = Some (Inr (w'', tr))
        \<and> tr = map (invocation_of 5) (filter (\<lambda>nc. getdest (snd nc) \<noteq> 2) ?L)
        \<and> 2 \<notin> fst ` set tr" .
  then have c2: "\<exists>w'' tr. emit quiet 0 (5::int) world_abc_less_b = Some (Inr (w'', tr))
          \<and> tr = [(1, 7, 5), (3, 7, 5)] \<and> 2 \<notin> fst ` set tr"
    unfolding w' f by (simp add: invocation_of_def connections_def)
  from h1 l d tl has_slots_destroy_world_abc c1 c2 show ?thesis by simp
qed

section \<open>The cross-reference relation\<close>

lemma symmetric_refs_world_twice: "symmetric_refs world_twice"
  by (auto simp: symmetric_refs_def registered_def world_twice_def targeting_def getdest_def
      connections_def split: if_splits)

lemma not_symmetric_refs_world_twice_less_one: "\<not> symmetric_refs world_twice_less_one"
proof
  assume "symmetric_refs world_twice_less_one"
  then have "registered world_twice_less_one 1 0
      = (\<exists>cs. m_connected_slots world_twice_less_one 0 = Some cs \<and> targeting 1 cs \<noteq> [])"
    unfolding symmetric_refs_def by blast
  then show False
    by (simp add: registered_def world_twice_less_one_def targeting_def getdest_def
        connections_def)
qed

text \<open>
  Claim C2 fails on the code. Receiver 1 is connected twice to emitter 0; the relation is
  symmetric. One \<open>disconnect\<close> erases the first connection and unregisters the emitter,
  although a second connection to the receiver remains: the relation is no longer
  symmetric. When the receiver is then destroyed, its empty set names no emitter, the
  connection stays in the emitter's list, and the next \<open>emit\<close> calls through a pointer to
  the destroyed receiver.
\<close>

theorem disconnect_of_duplicate_breaks_symmetry:
  "connect 0 1 7 world_start = Inr world_once
   \<and> connect 0 1 7 world_once = Inr world_twice
   \<and> symmetric_refs world_twice
   \<and> disconnect 0 1 world_twice = Inr world_twice_less_one
   \<and> m_connected_slots world_twice_less_one 0 = Some [(1, connections 1 7)]
   \<and> \<not> registered world_twice_less_one 1 0
   \<and> \<not> symmetric_refs world_twice_less_one
   \<and> has_slots_destroy 1 world_twice_less_one = Inr world_dangling
   \<and> m_connected_slots world_dangling 0 = Some [(1, connections 1 7)]
   \<and> emit quiet 0 (5::int) world_dangling = Some (Inl DanglingReceiver)"
proof -
  have "connect 0 1 7 world_start = Inr world_once"
    by (simp add: connect_def signal_connect_def push_back_def set_insert_def
        world_start_def world_once_def)
  moreover have "connect 0 1 7 world_once = Inr world_twice"
    by (simp add: connect_def signal_connect_def push_back_def set_insert_def
        world_once_def world_twice_def)
  moreover have "disconnect 0 1 world_twice = Inr world_twice_less_one"
    by (simp add: disconnect_def signal_disconnect_def set_erase_def getdest_def
        connections_def world_twice_def world_twice_less_one_def)
  moreover have "m_connected_slots world_twice_less_one 0 = Some [(1, connections 1 7)]"
    by (simp add: world_twice_less_one_def)
  moreover have "\<not> registered world_twice_less_one 1 0"
    by (simp add: registered_def world_twice_less_one_def)
  moreover have "has_slots_destroy 1 world_twice_less_one = Inr world_dangling"
    by (simp add: has_slots_destroy_def has_slots_disconnect_all_def
        world_twice_less_one_def world_dangling_def)
  moreover have "m_connected_slots world_dangling 0 = Some [(1, connections 1 7)]"
    by (simp add: world_dangling_def)
  moreover have "emit quiet 0 (5::int) world_dangling = Some (Inl DanglingReceiver)"
    by (simp add: emit_def emit_loop.simps world_dangling_def list_begin_def conn_emit_def
        connections_def)
  ultimately show ?thesis
    using symmetric_refs_world_twice not_symmetric_refs_world_twice_less_one by simp
qed

text \<open>Where the relation is symmetric, the emitters that hold a connection to a receiver
  are those of its back-reference set, which the copy constructor walks.\<close>

lemma symmetric_refs_connected_listed:
  assumes "symmetric_refs w"
    and "m_senders w hs = Some ss"
    and "m_connected_slots w e = Some cs"
    and "targeting hs cs \<noteq> []"
  shows "e \<in> set ss"
proof -
  from assms(1) have "registered w hs e
      = (\<exists>cs. m_connected_slots w e = Some cs \<and> targeting hs cs \<noteq> [])"
    unfolding symmetric_refs_def by blast
  with assms(3,4) have "registered w hs e" by blast
  with assms(2) show ?thesis by (simp add: registered_def)
qed

text \<open>
  Claim C7 fails on the code, through the defect of claim C2. Receiver 1 is connected
  twice to emitter 0 and disconnected once: the emitter still holds a connection to the
  receiver and calls it, but the receiver's back-reference set is empty. The copy
  constructor walks that set, so copying receiver 1 to a new receiver 3 duplicates
  nothing: the copy is not registered, the emitter's list is as before, and a later \<open>emit\<close>
  calls the original only.
\<close>

theorem receiver_copy_misses_unregistered_emitter:
  "run [signals_new 0, has_slots_new 1, connect 0 1 7, connect 0 1 7, disconnect 0 1]
     world_empty = Inr world_twice_less_one
   \<and> m_connected_slots world_twice_less_one 0 = Some [(1, connections 1 7)]
   \<and> emit quiet 0 (5::int) world_twice_less_one
        = Some (Inr (world_twice_less_one, [(1, 7, 5)]))
   \<and> has_slots_copy 3 1 world_twice_less_one = Some (Inr world_twice_less_one_copied)
   \<and> m_connected_slots world_twice_less_one_copied 0 = Some [(1, connections 1 7)]
   \<and> \<not> registered world_twice_less_one_copied 3 0
   \<and> emit quiet 0 (5::int) world_twice_less_one_copied
        = Some (Inr (world_twice_less_one_copied, [(1, 7, 5)]))"
proof -
  have "run [signals_new 0, has_slots_new 1, connect 0 1 7, connect 0 1 7, disconnect 0 1]
     world_empty = Inr world_twice_less_one"
    by (simp add: signals_new_def has_slots_new_def connect_def signal_connect_def
        push_back_def set_insert_def disconnect_def signal_disconnect_def set_erase_def
        getdest_def connections_def world_empty_def world_twice_less_one_def
        numeral_2_eq_2)
  moreover have "m_connected_slots world_twice_less_one 0 = Some [(1, connections 1 7)]"
    by (simp add: world_twice_less_one_def)
  moreover have "emit quiet 0 (5::int) world_twice_less_one
        = Some (Inr (world_twice_less_one, [(1, 7, 5)]))"
    by (simp add: emit_def emit_loop.simps world_twice_less_one_def list_begin_def
        conn_emit_def quiet_def connections_def)
  moreover have "has_slots_copy 3 1 world_twice_less_one = Some (Inr world_twice_less_one_copied)"
    by (simp add: has_slots_copy_def world_twice_less_one_def world_twice_less_one_copied_def)
  moreover have "m_connected_slots world_twice_less_one_copied 0 = Some [(1, connections 1 7)]"
    by (simp add: world_twice_less_one_copied_def)
  moreover have "\<not> registered world_twice_less_one_copied 3 0"
    by (simp add: registered_def world_twice_less_one_copied_def)
  moreover have "emit quiet 0 (5::int) world_twice_less_one_copied
        = Some (Inr (world_twice_less_one_copied, [(1, 7, 5)]))"
    by (simp add: emit_def emit_loop.simps world_twice_less_one_copied_def list_begin_def
        conn_emit_def quiet_def connections_def)
  ultimately show ?thesis by simp
qed

section \<open>Callables that disconnect during \<open>emit\<close>\<close>

text \<open>
  Claim C3, as stated, fails. Receiver 1 and then receiver 2 are connected to emitter 0,
  and the callable of receiver 1 disconnects receiver 2, the connection \<open>emit\<close> has not
  visited yet. \<open>emit\<close> saved the iterator to that connection's node before the call; the
  node is erased during the call, and the loop goes on from the dangling iterator.
\<close>

theorem emit_disconnect_of_next_dangles:
  "emit (disconnects 0 seven_unplugs_two) 0 (5::int) world_ab = Some (Inl DanglingIterator)"
  by (simp add: emit_def emit_loop.simps world_ab_def list_begin_def conn_emit_def
      disconnects_def seven_unplugs_two_def disconnect_def signal_disconnect_def
      getdest_def connections_def set_erase_def)

lemma filter_mem_sub:
  "set ys \<subseteq> set xs \<Longrightarrow> filter (\<lambda>y. y \<in> set ys) (filter (\<lambda>y. y \<in> set xs) zs)
     = filter (\<lambda>y. y \<in> set ys) zs"
  by (induction zs) auto

lemma filter_mem_set: "set (filter (\<lambda>y. y \<in> set ys) zs) \<subseteq> set ys"
  by auto

lemma spares_next_called:
  assumes sp: "spares_next beh e a (x # rest) w"
    and l: "m_connected_slots w e = Some cur"
    and mem: "x \<in> set cur"
  shows "\<exists>w1 cur1. conn_emit beh (snd x) a w = Some (Inr w1)
           \<and> m_connected_slots w1 e = Some cur1
           \<and> cur1 = filter (\<lambda>y. y \<in> set cur1) cur
           \<and> (\<forall>m. iter_next (fst x) cur = Inr (Some m) \<longrightarrow> m \<in> fst ` set cur1)
           \<and> spares_next beh e a rest w1"
proof (cases "conn_emit beh (snd x) a w")
  case None
  with sp l mem show ?thesis by simp
next
  case (Some res)
  show ?thesis
  proof (cases res)
    case (Inl err)
    with Some sp l mem show ?thesis by simp
  next
    case (Inr w1)
    show ?thesis
    proof (cases "m_connected_slots w1 e")
      case None
      with Some Inr sp l mem show ?thesis by simp
    next
      case (Some cur1)
      from sp l mem \<open>conn_emit beh (snd x) a w = Some res\<close> Inr Some
      have c: "cur1 = filter (\<lambda>y. y \<in> set cur1) cur"
        and nx: "case iter_next (fst x) cur of Inr (Some m) \<Rightarrow> m \<in> fst ` set cur1 | _ \<Rightarrow> True"
        and sp1: "spares_next beh e a rest w1"
        by simp_all
      from nx have "\<forall>m. iter_next (fst x) cur = Inr (Some m) \<longrightarrow> m \<in> fst ` set cur1"
        by (auto split: sum.splits option.splits)
      with \<open>conn_emit beh (snd x) a w = Some res\<close> Inr Some c sp1 show ?thesis by blast
    qed
  qed
qed

text \<open>
  The loop of \<open>emit\<close> against the specification's dispatch. The emission started from
  the list \<open>pre @ rest\<close>; \<open>pre\<close> has been dealt with; the list is now \<open>cur\<close>, what is
  left of the starting list; the iterator stands at the first connection of \<open>rest\<close> that
  is still in \<open>cur\<close>.
\<close>

lemma emit_loop_refines:
  "distinct (map fst (pre @ rest)) \<Longrightarrow> m_connected_slots w e = Some cur \<Longrightarrow>
   cur = filter (\<lambda>y. y \<in> set cur) (pre @ rest) \<Longrightarrow> spares_next beh e a rest w \<Longrightarrow>
   \<exists>w' called cs'.
      dispatch_spec beh e a rest w = Some (Inr (w', called))
      \<and> emit_loop beh e a (list_begin (filter (\<lambda>y. y \<in> set cur) rest)) w tr
          = Some (Inr (w', tr @ map (invocation_of a) called))
      \<and> subseq called rest
      \<and> set called \<subseteq> set cur
      \<and> m_connected_slots w' e = Some cs'
      \<and> cs' = filter (\<lambda>y. y \<in> set cs') cur
      \<and> set cs' \<inter> set rest \<subseteq> set called"
proof (induction rest arbitrary: pre w cur tr)
  case Nil
  have "dispatch_spec beh e a [] w = Some (Inr (w, []))" by simp
  moreover have "emit_loop beh e a (list_begin (filter (\<lambda>y. y \<in> set cur) [])) w tr
          = Some (Inr (w, tr @ map (invocation_of a) []))"
    by (simp add: list_begin_def emit_loop.simps)
  moreover have "cur = filter (\<lambda>y. y \<in> set cur) cur" by simp
  moreover have "subseq [] ([]::connections_list)" "set [] \<subseteq> set cur"
    "set cur \<inter> set [] \<subseteq> set ([]::connections_list)" by simp_all
  ultimately show ?case using Nil.prems(2) by blast
next
  case (Cons x rest)
  have d': "distinct (map fst ((pre @ [x]) @ rest))" using Cons.prems(1) by simp
  have cur': "cur = filter (\<lambda>y. y \<in> set cur) ((pre @ [x]) @ rest)"
    using Cons.prems(3) by simp
  show ?case
  proof (cases "x \<in> set cur")
    case False
    have sp: "spares_next beh e a rest w" using Cons.prems(2,4) False by simp
    from Cons.IH[OF d' Cons.prems(2) cur' sp, of tr] obtain w' called cs' where
      ds: "dispatch_spec beh e a rest w = Some (Inr (w', called))"
      and el: "emit_loop beh e a (list_begin (filter (\<lambda>y. y \<in> set cur) rest)) w tr
          = Some (Inr (w', tr @ map (invocation_of a) called))"
      and sub: "subseq called rest" and inc: "set called \<subseteq> set cur"
      and l': "m_connected_slots w' e = Some cs'"
      and c': "cs' = filter (\<lambda>y. y \<in> set cs') cur"
      and cov: "set cs' \<inter> set rest \<subseteq> set called"
      by blast
    have "dispatch_spec beh e a (x # rest) w = Some (Inr (w', called))"
      using ds Cons.prems(2) False by simp
    moreover have "emit_loop beh e a (list_begin (filter (\<lambda>y. y \<in> set cur) (x # rest))) w tr
          = Some (Inr (w', tr @ map (invocation_of a) called))"
      using el False by simp
    moreover have "subseq called (x # rest)" using sub by (rule list_emb_Cons)
    moreover have "set cs' \<inter> set (x # rest) \<subseteq> set called"
    proof -
      from c' have "set cs' \<subseteq> set cur" by (metis filter_mem_set filter_is_subset order_refl set_filter subsetI mem_Collect_eq)
      with False have "x \<notin> set cs'" by auto
      with cov show ?thesis by auto
    qed
    ultimately show ?thesis using inc l' c' by blast
  next
    case True
    obtain n c where x: "x = (n, c)" by (cases x)
    let ?P = "\<lambda>y. y \<in> set cur"
    have split: "cur = filter ?P pre @ (n, c) # filter ?P rest"
      using Cons.prems(3) True x by (metis (mono_tags, lifting) filter.simps(2) filter_append)
    have "n \<notin> fst ` set pre" using Cons.prems(1) x by auto
    then have fresh: "n \<notin> fst ` set (filter ?P pre)" by auto
    have nxt: "iter_next n cur = Inr (list_begin (filter ?P rest))"
      by (subst split) (rule iter_next_at[OF fresh])
    have drf: "iter_deref n cur = Inr c"
      by (subst split) (rule iter_deref_at[OF fresh])
    from spares_next_called[OF Cons.prems(4,2) True] obtain w1 cur1 where
      b: "conn_emit beh c a w = Some (Inr w1)"
      and l1: "m_connected_slots w1 e = Some cur1"
      and c1: "cur1 = filter (\<lambda>y. y \<in> set cur1) cur"
      and sp_next: "\<forall>m. iter_next n cur = Inr (Some m) \<longrightarrow> m \<in> fst ` set cur1"
      and sp1: "spares_next beh e a rest w1"
      unfolding x by auto
    have sub1: "set cur1 \<subseteq> set cur" using c1 by (metis filter_is_subset)
    have dcur: "distinct (map fst cur)"
      using Cons.prems(1,3) by (metis distinct_map_filter)
    let ?tr1 = "tr @ [(m_pobject c, m_pmemfun c, a)]"
    have step: "emit_loop beh e a (Some n) w tr
          = emit_loop beh e a (list_begin (filter ?P rest)) w1 ?tr1"
      using Cons.prems(2) nxt drf b by (subst emit_loop.simps) simp
    have kept: "list_begin (filter (\<lambda>y. y \<in> set cur1) rest) = list_begin (filter ?P rest)"
    proof (cases "filter ?P rest")
      case Nil
      then have "filter (\<lambda>y. y \<in> set cur1) (filter ?P rest) = []" by simp
      then have "filter (\<lambda>y. y \<in> set cur1) rest = []"
        using filter_mem_sub[OF sub1, of rest] by simp
      with Nil show ?thesis by simp
    next
      case (Cons y ys)
      then have "iter_next n cur = Inr (Some (fst y))" using nxt by (simp add: list_begin_def)
      with sp_next have "fst y \<in> fst ` set cur1" by simp
      then obtain y' where y': "y' \<in> set cur1" and fy: "fst y' = fst y" by auto
      have "y \<in> set (filter ?P rest)" using Cons by simp
      then have ycur: "y \<in> set cur" by simp
      from y' sub1 have "y' \<in> set cur" by auto
      with ycur fy dcur have "y' = y"
        by (metis eq_key_imp_eq_value prod.collapse)
      with y' have "y \<in> set cur1" by simp
      then have "filter (\<lambda>y. y \<in> set cur1) (filter ?P rest)
          = y # filter (\<lambda>y. y \<in> set cur1) ys" using Cons by simp
      then have "filter (\<lambda>y. y \<in> set cur1) rest = y # filter (\<lambda>y. y \<in> set cur1) ys"
        using filter_mem_sub[OF sub1, of rest] by simp
      with Cons show ?thesis by (simp add: list_begin_def)
    qed
    have cur1': "cur1 = filter (\<lambda>y. y \<in> set cur1) ((pre @ [x]) @ rest)"
    proof -
      have "cur1 = filter (\<lambda>y. y \<in> set cur1) (filter ?P ((pre @ [x]) @ rest))"
        using c1 cur' by simp
      then show ?thesis using filter_mem_sub[OF sub1, of "(pre @ [x]) @ rest"] by simp
    qed
    from Cons.IH[OF d' l1 cur1' sp1, of ?tr1] obtain w' called cs' where
      ds: "dispatch_spec beh e a rest w1 = Some (Inr (w', called))"
      and el: "emit_loop beh e a (list_begin (filter (\<lambda>y. y \<in> set cur1) rest)) w1 ?tr1
          = Some (Inr (w', ?tr1 @ map (invocation_of a) called))"
      and sub: "subseq called rest" and inc: "set called \<subseteq> set cur1"
      and l': "m_connected_slots w' e = Some cs'"
      and c': "cs' = filter (\<lambda>y. y \<in> set cs') cur1"
      and cov: "set cs' \<inter> set rest \<subseteq> set called"
      by blast
    have r1: "dispatch_spec beh e a (x # rest) w = Some (Inr (w', x # called))"
      using ds Cons.prems(2) True b by (simp add: x)
    have "filter ?P (x # rest) = x # filter ?P rest" using True by simp
    then have "list_begin (filter ?P (x # rest)) = Some n" by (simp add: list_begin_def x)
    then have r2: "emit_loop beh e a (list_begin (filter ?P (x # rest))) w tr
          = Some (Inr (w', tr @ map (invocation_of a) (x # called)))"
      using step el kept by (simp add: invocation_of_def x)
    have r3: "subseq (x # called) (x # rest)" using sub by (rule subseq_Cons2)
    have r4: "set (x # called) \<subseteq> set cur" using True inc sub1 by auto
    have sub2: "set cs' \<subseteq> set cur1" using c' by (metis filter_is_subset)
    have r5: "cs' = filter (\<lambda>y. y \<in> set cs') cur"
    proof -
      have "cs' = filter (\<lambda>y. y \<in> set cs') (filter (\<lambda>y. y \<in> set cur1) cur)"
        using c' c1 by simp
      then show ?thesis using filter_mem_sub[OF sub2, of cur] by simp
    qed
    have r6: "set cs' \<inter> set (x # rest) \<subseteq> set (x # called)" using cov by auto
    from r1 r2 r3 r4 l' r5 r6 show ?thesis by blast
  qed
qed

lemma subseq_set_mono: "subseq xs ys \<Longrightarrow> set xs \<subseteq> set ys"
  by (induction rule: list_emb.induct) auto

lemma subseq_distinct_list: "subseq xs ys \<Longrightarrow> distinct ys \<Longrightarrow> distinct xs"
proof (induction rule: list_emb.induct)
  case (list_emb_Cons2 x y xs ys)
  then have "set xs \<subseteq> set ys" by (auto dest: subseq_set_mono)
  with list_emb_Cons2 show ?case by auto
qed auto

lemma dispatch_spec_subseq:
  "dispatch_spec beh e a rest w = Some (Inr (w', called)) \<Longrightarrow> subseq called rest"
proof (induction rest arbitrary: w w' called)
  case Nil
  then show ?case by simp
next
  case (Cons x rest)
  then show ?case
    by (fastforce split: option.splits sum.splits if_splits)
qed

text \<open>A connection that is no longer in the list when its turn comes is passed over.\<close>

lemma dispatch_spec_passes_over:
  "m_connected_slots w e = Some cur \<Longrightarrow> x \<notin> set cur \<Longrightarrow>
   dispatch_spec beh e a (x # rest) w = dispatch_spec beh e a rest w"
  by simp

lemma dispatch_spec_append:
  "dispatch_spec beh e a (xs @ ys) w = Some (Inr (w', called)) \<Longrightarrow>
   \<exists>w1 c1 c2. dispatch_spec beh e a xs w = Some (Inr (w1, c1))
      \<and> dispatch_spec beh e a ys w1 = Some (Inr (w', c2)) \<and> called = c1 @ c2"
proof (induction xs arbitrary: w called)
  case Nil
  then show ?case by simp
next
  case (Cons x xs)
  from Cons.prems obtain cur where l: "m_connected_slots w e = Some cur"
    by (auto split: option.splits)
  show ?case
  proof (cases "x \<in> set cur")
    case False
    with Cons.prems l have "dispatch_spec beh e a (xs @ ys) w = Some (Inr (w', called))"
      by simp
    from Cons.IH[OF this] False l show ?thesis by simp
  next
    case True
    with Cons.prems l obtain w0 called0 where
      b: "conn_emit beh (snd x) a w = Some (Inr w0)"
      and r: "dispatch_spec beh e a (xs @ ys) w0 = Some (Inr (w', called0))"
      and c: "called = x # called0"
      by (auto split: option.splits sum.splits)
    from Cons.IH[OF r] obtain w1 c1 c2 where
      "dispatch_spec beh e a xs w0 = Some (Inr (w1, c1))"
      and "dispatch_spec beh e a ys w1 = Some (Inr (w', c2))" and "called0 = c1 @ c2"
      by blast
    then have "dispatch_spec beh e a (x # xs) w = Some (Inr (w1, x # c1))
        \<and> dispatch_spec beh e a ys w1 = Some (Inr (w', c2)) \<and> called = (x # c1) @ c2"
      using l True b c by simp
    then show ?thesis by blast
  qed
qed

text \<open>A connection is called exactly when it is in the emitter's list in the world reached
  once the connections before it have been dealt with.\<close>

lemma called_iff_in_list_at_turn:
  assumes d: "distinct (pre @ x # rest)"
    and r: "dispatch_spec beh e a (pre @ x # rest) w = Some (Inr (w', called))"
  shows "\<exists>w1 called1 cur1. dispatch_spec beh e a pre w = Some (Inr (w1, called1))
           \<and> m_connected_slots w1 e = Some cur1
           \<and> (x \<in> set called) = (x \<in> set cur1)"
proof -
  from dispatch_spec_append[OF r] obtain w1 c1 c2 where
    r1: "dispatch_spec beh e a pre w = Some (Inr (w1, c1))"
    and r2: "dispatch_spec beh e a (x # rest) w1 = Some (Inr (w', c2))"
    and c: "called = c1 @ c2" by blast
  from r2 obtain cur1 where l1: "m_connected_slots w1 e = Some cur1"
    by (auto split: option.splits)
  from dispatch_spec_subseq[OF r1] have "set c1 \<subseteq> set pre" by (rule subseq_set_mono)
  with d have n1: "x \<notin> set c1" by auto
  have "(x \<in> set c2) = (x \<in> set cur1)"
  proof (cases "x \<in> set cur1")
    case True
    with r2 l1 show ?thesis by (auto split: option.splits sum.splits)
  next
    case False
    with r2 l1 have "dispatch_spec beh e a rest w1 = Some (Inr (w', c2))" by simp
    from dispatch_spec_subseq[OF this] have "set c2 \<subseteq> set rest"
      by (rule subseq_set_mono)
    with d False show ?thesis by auto
  qed
  with n1 c have "(x \<in> set called) = (x \<in> set cur1)" by simp
  with r1 l1 show ?thesis by blast
qed

lemma emit_refines:
  assumes l: "m_connected_slots w e = Some cs"
    and d: "distinct (map fst cs)"
    and sp: "spares_next beh e a cs w"
  shows "\<exists>w' called cs'.
       dispatch_spec beh e a cs w = Some (Inr (w', called))
       \<and> emit beh e a w = Some (Inr (w', map (invocation_of a) called))
       \<and> subseq called cs \<and> distinct called
       \<and> (\<forall>pre x rest. cs = pre @ x # rest \<longrightarrow>
             (\<exists>w1 called1 cur1. dispatch_spec beh e a pre w = Some (Inr (w1, called1))
                \<and> m_connected_slots w1 e = Some cur1
                \<and> (x \<in> set called) = (x \<in> set cur1)))
       \<and> m_connected_slots w' e = Some cs'
       \<and> subseq cs' cs \<and> set cs' \<subseteq> set called
       \<and> distinct (map fst cs')"
proof -
  have d0: "distinct (map fst ([] @ cs))" using d by simp
  have c0: "cs = filter (\<lambda>y. y \<in> set cs) ([] @ cs)" by simp
  from emit_loop_refines[OF d0 l c0 sp, of "[]"] obtain w' called cs' where
    ds: "dispatch_spec beh e a cs w = Some (Inr (w', called))"
    and el: "emit_loop beh e a (list_begin (filter (\<lambda>y. y \<in> set cs) cs)) w []
          = Some (Inr (w', [] @ map (invocation_of a) called))"
    and sub: "subseq called cs"
    and l': "m_connected_slots w' e = Some cs'"
    and c': "cs' = filter (\<lambda>y. y \<in> set cs') cs"
    and cov: "set cs' \<inter> set cs \<subseteq> set called"
    by blast
  have dcs: "distinct cs" using d by (rule distinct_map[THEN iffD1, THEN conjunct1])
  have em: "emit beh e a w = Some (Inr (w', map (invocation_of a) called))"
    using el l by (simp add: emit_def)
  have dc: "distinct called" using sub dcs by (rule subseq_distinct_list)
  have turn: "\<forall>pre x rest. cs = pre @ x # rest \<longrightarrow>
             (\<exists>w1 called1 cur1. dispatch_spec beh e a pre w = Some (Inr (w1, called1))
                \<and> m_connected_slots w1 e = Some cur1
                \<and> (x \<in> set called) = (x \<in> set cur1))"
  proof (intro allI impI)
    fix pre x rest assume split: "cs = pre @ x # rest"
    show "\<exists>w1 called1 cur1. dispatch_spec beh e a pre w = Some (Inr (w1, called1))
                \<and> m_connected_slots w1 e = Some cur1
                \<and> (x \<in> set called) = (x \<in> set cur1)"
      using called_iff_in_list_at_turn[of pre x rest beh e a w w' called] dcs ds
      unfolding split by blast
  qed
  have sc: "subseq cs' cs" by (subst c') (rule subseq_filter_left)
  have "set cs' \<subseteq> set cs" using sc by (rule subseq_set_mono)
  with cov have cv: "set cs' \<subseteq> set called" by auto
  have dm: "distinct (map fst cs')" by (subst c') (rule distinct_map_filter[OF d])
  from ds em sub dc turn l' sc cv dm show ?thesis by blast
qed

lemma iter_next_skip:
  "n \<notin> fst ` set xs \<Longrightarrow> iter_next n (xs @ ys) = iter_next n ys"
  by (induction xs) auto

lemma list_begin_mem: "list_begin cs = Some m \<Longrightarrow> m \<in> fst ` set cs"
  by (cases cs) (auto simp: list_begin_def)

lemma iter_next_mem: "iter_next n cs = Inr (Some m) \<Longrightarrow> m \<in> fst ` set cs"
  by (induction cs) (auto split: if_splits dest: list_begin_mem)

lemma iter_next_Cons_mem:
  "iter_next n (nc # cs) = Inr (Some m) \<Longrightarrow> m \<in> fst ` set cs"
  by (auto split: if_splits dest: list_begin_mem iter_next_mem)

lemma first_target_split:
  assumes "nc \<in> set cs" and "getdest (snd nc) = r"
  shows "\<exists>pre nc0 post. cs = pre @ nc0 # post \<and> targeting r pre = []
           \<and> getdest (snd nc0) = r"
proof -
  from assms have "\<exists>x \<in> set cs. getdest (snd x) = r" by blast
  from split_list_first_prop[OF this] obtain pre nc0 post where
    "cs = pre @ nc0 # post" and "getdest (snd nc0) = r"
    and "\<forall>y \<in> set pre. getdest (snd y) \<noteq> r" by blast
  moreover from this(3) have "targeting r pre = []" by (simp add: targeting_def)
  ultimately show ?thesis by blast
qed

lemma filter_out_one_node:
  assumes "distinct (map fst (pre @ nc0 # post))"
  shows "filter (\<lambda>x. fst x \<notin> {fst nc0}) (pre @ nc0 # post) = pre @ post"
proof -
  from assms have "fst nc0 \<notin> fst ` set pre" and "fst nc0 \<notin> fst ` set post"
    by auto
  then have "\<forall>x \<in> set pre. fst x \<noteq> fst nc0" and "\<forall>x \<in> set post. fst x \<noteq> fst nc0"
    by (metis imageI)+
  then show ?thesis by simp
qed

lemma filter_keep_rest:
  assumes "distinct (map fst (pre @ nc0 # post))"
  shows "filter (\<lambda>y. y \<in> set (pre @ post)) (pre @ nc0 # post) = pre @ post"
proof -
  from assms have "distinct (pre @ nc0 # post)"
    by (rule distinct_map[THEN iffD1, THEN conjunct1])
  then have "nc0 \<notin> set (pre @ post)" by auto
  then show ?thesis by (simp add: filter_id_conv)
qed

lemma spares_next_calledI:
  assumes l: "m_connected_slots w e = Some cur"
    and mem: "x \<in> set cur"
    and b: "conn_emit beh (snd x) a w = Some (Inr w1)"
    and l1: "m_connected_slots w1 e = Some cur1"
    and c1: "filter (\<lambda>y. y \<in> set cur1) cur = cur1"
    and nx: "\<forall>m. iter_next (fst x) cur = Inr (Some m) \<longrightarrow> m \<in> fst ` set cur1"
    and sp: "spares_next beh e a rest w1"
  shows "spares_next beh e a (x # rest) w"
proof -
  from nx have "case iter_next (fst x) cur of Inr (Some m) \<Rightarrow> m \<in> fst ` set cur1 | _ \<Rightarrow> True"
    by (auto split: sum.splits option.splits)
  with l mem b l1 c1 sp show ?thesis by simp
qed

text \<open>
  A callable that calls \<open>disconnect\<close> for its own receiver removes the first connection to
  that receiver, which is the one being called or an earlier one, never the next: in every
  world whose list has distinct nodes and live receivers, callables that disconnect
  nothing or their own receiver meet \<open>spares_next\<close>.
\<close>

lemma self_disconnect_spares_next:
  assumes self: "\<forall>f r. victim f r = None \<or> victim f r = Some r"
  shows "m_connected_slots w e = Some cur \<Longrightarrow> distinct (map fst cur) \<Longrightarrow>
    targets_live w cur \<Longrightarrow> spares_next (disconnects e victim) e a rest w"
proof (induction rest arbitrary: w cur)
  case Nil
  show ?case by simp
next
  case (Cons x rest)
  show ?case
  proof (cases "x \<in> set cur")
    case False
    with Cons.IH[OF Cons.prems] Cons.prems(1) show ?thesis by simp
  next
    case True
    obtain n c where x: "x = (n, c)" by (cases x)
    let ?r = "m_pobject c"
    have mem: "(n, c) \<in> set cur" using True x by simp
    from Cons.prems(3) mem obtain ss where ss: "m_senders w ?r = Some ss"
      by (auto simp: targets_live_def getdest_def)
    then have live: "?r \<in> dom (m_senders w)" by auto
    show ?thesis
    proof (cases "victim (m_pmemfun c) ?r")
      case None
      then have b: "conn_emit (disconnects e victim) c a w = Some (Inr w)"
        using live by (simp add: conn_emit_def disconnects_def)
      have nx: "\<forall>m. iter_next (fst x) cur = Inr (Some m) \<longrightarrow> m \<in> fst ` set cur"
        by (auto dest: iter_next_mem)
      have sp: "spares_next (disconnects e victim) e a rest w" using Cons.IH[OF Cons.prems] .
      have id: "filter (\<lambda>y. y \<in> set cur) cur = cur" by simp
      from b have b': "conn_emit (disconnects e victim) (snd x) a w = Some (Inr w)"
        by (simp add: x)
      show ?thesis
        by (rule spares_next_calledI[OF Cons.prems(1) True b' Cons.prems(1) id nx sp])
    next
      case (Some v)
      with self have v: "v = ?r" by (metis option.distinct(1) option.inject)
      have "getdest (snd (n, c)) = ?r" by (simp add: getdest_def)
      from first_target_split[OF mem this] obtain pre0 nc0 post0 where
        cur: "cur = pre0 @ nc0 # post0" and np: "targeting ?r pre0 = []"
        and t0: "getdest (snd nc0) = ?r" by blast
      let ?w' = "w\<lparr>m_connected_slots := (m_connected_slots w)(e \<mapsto> pre0 @ post0),
                   m_senders := (m_senders w)(?r \<mapsto> set_erase e ss)\<rparr>"
      have scan: "disconnect_scan ?r cur = Some (pre0 @ post0)"
        unfolding cur using np t0 by (rule disconnect_scan_first)
      have dis: "disconnect e ?r w = Inr ?w'"
        using Cons.prems(1) scan ss by (simp add: disconnect_def signal_disconnect_def)
      have b: "conn_emit (disconnects e victim) c a w = Some (Inr ?w')"
        using Some v dis live by (simp add: conn_emit_def disconnects_def)
      have l': "m_connected_slots ?w' e = Some (pre0 @ post0)" by simp
      have flt: "filter (\<lambda>y. y \<in> set (pre0 @ post0)) cur = pre0 @ post0"
        unfolding cur using Cons.prems(2)[unfolded cur] by (rule filter_keep_rest)
      have notpre: "n \<notin> fst ` set pre0"
      proof
        assume "n \<in> fst ` set pre0"
        then obtain c' where c': "(n, c') \<in> set pre0" by auto
        then have "(n, c') \<in> set cur" using cur by simp
        with Cons.prems(2) mem have "c' = c" by (metis eq_key_imp_eq_value)
        with c' np show False by (auto simp: targeting_def getdest_def filter_empty_conv)
      qed
      have nx: "\<forall>m. iter_next (fst x) cur = Inr (Some m) \<longrightarrow> m \<in> fst ` set (pre0 @ post0)"
      proof (intro allI impI)
        fix m assume "iter_next (fst x) cur = Inr (Some m)"
        then have "iter_next n (nc0 # post0) = Inr (Some m)"
          unfolding cur using notpre by (simp add: iter_next_skip x)
        then have "m \<in> fst ` set post0" by (rule iter_next_Cons_mem)
        then show "m \<in> fst ` set (pre0 @ post0)" by auto
      qed
      have d': "distinct (map fst (pre0 @ post0))" using Cons.prems(2) cur by auto
      have tl': "targets_live ?w' (pre0 @ post0)"
        using Cons.prems(3) ss cur by (auto simp: targets_live_def)
      have sp: "spares_next (disconnects e victim) e a rest ?w'" using Cons.IH[OF l' d' tl'] .
      from b have b': "conn_emit (disconnects e victim) (snd x) a w = Some (Inr ?w')"
        by (simp add: x)
      show ?thesis
        by (rule spares_next_calledI[OF Cons.prems(1) True b' l' flt nx sp])
    qed
  qed
qed

text \<open>
  Claim C3, amended. Let the callables called in an emission return, only remove
  connections of the emitter, and leave in the list the connection that follows the one
  being called (a callable may disconnect the connection being called, one already
  passed, or one further down the list). Then \<open>emit\<close> returns what the specification's
  dispatch returns: the connections called are a sublist of the list the emission started
  from, each called once and in list order; a connection is called exactly when it is
  still in the emitter's list at its turn, so none removed before its turn is called;
  and every connection left in the list at the end was called. If the callables behave
  so again, a second \<open>emit\<close> on the world left behind does the same on the remaining
  connections.
\<close>

theorem emit_tolerates_disconnects_sparing_next:
  assumes "m_connected_slots w e = Some cs"
    and "distinct (map fst cs)"
    and "spares_next beh e a cs w"
  shows "\<exists>w' called cs'.
       dispatch_spec beh e a cs w = Some (Inr (w', called))
       \<and> emit beh e a w = Some (Inr (w', map (invocation_of a) called))
       \<and> subseq called cs \<and> distinct called
       \<and> (\<forall>pre x rest. cs = pre @ x # rest \<longrightarrow>
             (\<exists>w1 called1 cur1. dispatch_spec beh e a pre w = Some (Inr (w1, called1))
                \<and> m_connected_slots w1 e = Some cur1
                \<and> (x \<in> set called) = (x \<in> set cur1)))
       \<and> m_connected_slots w' e = Some cs'
       \<and> subseq cs' cs \<and> set cs' \<subseteq> set called
       \<and> (spares_next beh e a cs' w' \<longrightarrow>
            (\<exists>w'' called2 cs''.
               dispatch_spec beh e a cs' w' = Some (Inr (w'', called2))
               \<and> emit beh e a w' = Some (Inr (w'', map (invocation_of a) called2))
               \<and> subseq called2 cs' \<and> distinct called2
               \<and> (\<forall>pre x rest. cs' = pre @ x # rest \<longrightarrow>
                     (\<exists>w1 called1 cur1.
                        dispatch_spec beh e a pre w' = Some (Inr (w1, called1))
                        \<and> m_connected_slots w1 e = Some cur1
                        \<and> (x \<in> set called2) = (x \<in> set cur1)))
               \<and> m_connected_slots w'' e = Some cs''
               \<and> subseq cs'' cs' \<and> set cs'' \<subseteq> set called2))"
proof -
  from emit_refines[OF assms] obtain w' called cs' where
    ds: "dispatch_spec beh e a cs w = Some (Inr (w', called))"
    and em: "emit beh e a w = Some (Inr (w', map (invocation_of a) called))"
    and sub: "subseq called cs" and dc: "distinct called"
    and turn: "\<forall>pre x rest. cs = pre @ x # rest \<longrightarrow>
             (\<exists>w1 called1 cur1. dispatch_spec beh e a pre w = Some (Inr (w1, called1))
                \<and> m_connected_slots w1 e = Some cur1
                \<and> (x \<in> set called) = (x \<in> set cur1))"
    and l': "m_connected_slots w' e = Some cs'"
    and sc: "subseq cs' cs" and cv: "set cs' \<subseteq> set called"
    and dm: "distinct (map fst cs')"
    by blast
  have again: "spares_next beh e a cs' w' \<longrightarrow>
            (\<exists>w'' called2 cs''.
               dispatch_spec beh e a cs' w' = Some (Inr (w'', called2))
               \<and> emit beh e a w' = Some (Inr (w'', map (invocation_of a) called2))
               \<and> subseq called2 cs' \<and> distinct called2
               \<and> (\<forall>pre x rest. cs' = pre @ x # rest \<longrightarrow>
                     (\<exists>w1 called1 cur1.
                        dispatch_spec beh e a pre w' = Some (Inr (w1, called1))
                        \<and> m_connected_slots w1 e = Some cur1
                        \<and> (x \<in> set called2) = (x \<in> set cur1)))
               \<and> m_connected_slots w'' e = Some cs''
               \<and> subseq cs'' cs' \<and> set cs'' \<subseteq> set called2)"
  proof
    assume sp2: "spares_next beh e a cs' w'"
    from emit_refines[OF l' dm sp2] obtain w'' called2 cs'' where
      "dispatch_spec beh e a cs' w' = Some (Inr (w'', called2))"
      and "emit beh e a w' = Some (Inr (w'', map (invocation_of a) called2))"
      and "subseq called2 cs'" and "distinct called2"
      and "\<forall>pre x rest. cs' = pre @ x # rest \<longrightarrow>
                     (\<exists>w1 called1 cur1.
                        dispatch_spec beh e a pre w' = Some (Inr (w1, called1))
                        \<and> m_connected_slots w1 e = Some cur1
                        \<and> (x \<in> set called2) = (x \<in> set cur1))"
      and "m_connected_slots w'' e = Some cs''"
      and "subseq cs'' cs'" and "set cs'' \<subseteq> set called2"
      by blast
    then show "\<exists>w'' called2 cs''.
               dispatch_spec beh e a cs' w' = Some (Inr (w'', called2))
               \<and> emit beh e a w' = Some (Inr (w'', map (invocation_of a) called2))
               \<and> subseq called2 cs' \<and> distinct called2
               \<and> (\<forall>pre x rest. cs' = pre @ x # rest \<longrightarrow>
                     (\<exists>w1 called1 cur1.
                        dispatch_spec beh e a pre w' = Some (Inr (w1, called1))
                        \<and> m_connected_slots w1 e = Some cur1
                        \<and> (x \<in> set called2) = (x \<in> set cur1)))
               \<and> m_connected_slots w'' e = Some cs''
               \<and> subseq cs'' cs' \<and> set cs'' \<subseteq> set called2"
      by blast
  qed
  from ds em sub dc turn l' sc cv again show ?thesis by blast
qed

text \<open>In \<open>world_abc\<close> the callable of receiver 1 disconnects receiver 3, two places down the
  list: receiver 2 is called, receiver 3 is not.\<close>

lemma spares_next_world_abc:
  "spares_next (disconnects 0 one_unplugs_three) 0 (5::int)
     [(0, connections 1 7), (1, connections 2 7), (2, connections 3 7)] world_abc"
  by (simp add: world_abc_def conn_emit_def disconnects_def one_unplugs_three_def
      disconnect_def signal_disconnect_def getdest_def connections_def set_erase_def
      list_begin_def)

lemma dispatch_spec_world_abc:
  "dispatch_spec (disconnects 0 one_unplugs_three) 0 (5::int)
     [(0, connections 1 7), (1, connections 2 7), (2, connections 3 7)] world_abc
     = Some (Inr (world_abc_less_c, [(0, connections 1 7), (1, connections 2 7)]))"
  by (simp add: world_abc_def world_abc_less_c_def conn_emit_def disconnects_def
      one_unplugs_three_def disconnect_def signal_disconnect_def getdest_def
      connections_def set_erase_def fun_upd_twist)

lemma spares_next_world_abc_less_c:
  "spares_next (disconnects 0 one_unplugs_three) 0 (5::int)
     [(0, connections 1 7), (1, connections 2 7)] world_abc_less_c"
  by (simp add: world_abc_less_c_def conn_emit_def disconnects_def one_unplugs_three_def
      disconnect_def signal_disconnect_def getdest_def connections_def set_erase_def
      list_begin_def)

lemma dispatch_spec_world_abc_less_c:
  "dispatch_spec (disconnects 0 one_unplugs_three) 0 (5::int)
     [(0, connections 1 7), (1, connections 2 7)] world_abc_less_c
     = Some (Inr (world_abc_less_c, [(0, connections 1 7), (1, connections 2 7)]))"
  by (simp add: world_abc_less_c_def conn_emit_def disconnects_def
      one_unplugs_three_def disconnect_def signal_disconnect_def getdest_def
      connections_def set_erase_def)

text \<open>In \<open>world_ab\<close> the callable of receiver 1 disconnects its own receiver: receiver 2 is
  still called, and the second emission calls receiver 2 only.\<close>

lemma dispatch_spec_world_ab:
  "dispatch_spec (disconnects 0 seven_unplugs_itself) 0 (5::int)
     [(0, connections 1 7), (1, connections 2 8)] world_ab
     = Some (Inr (world_ab_less_a, [(0, connections 1 7), (1, connections 2 8)]))"
  by (simp add: world_ab_def world_ab_less_a_def conn_emit_def disconnects_def
      seven_unplugs_itself_def disconnect_def signal_disconnect_def getdest_def
      connections_def set_erase_def fun_upd_twist)

lemma dispatch_spec_world_ab_less_a:
  "dispatch_spec (disconnects 0 seven_unplugs_itself) 0 (5::int)
     [(1, connections 2 8)] world_ab_less_a
     = Some (Inr (world_ab_less_a, [(1, connections 2 8)]))"
  by (simp add: world_ab_less_a_def conn_emit_def disconnects_def
      seven_unplugs_itself_def connections_def)

theorem emit_tolerates_disconnects_sparing_next_witness:
  "m_connected_slots world_abc 0
     = Some [(0, connections 1 7), (1, connections 2 7), (2, connections 3 7)]
   \<and> distinct (map fst [(0::node, connections 1 7), (1, connections 2 7), (2, connections 3 7)])
   \<and> spares_next (disconnects 0 one_unplugs_three) 0 (5::int)
        [(0, connections 1 7), (1, connections 2 7), (2, connections 3 7)] world_abc
   \<and> emit (disconnects 0 one_unplugs_three) 0 (5::int) world_abc
        = Some (Inr (world_abc_less_c, [(1, 7, 5), (2, 7, 5)]))
   \<and> m_connected_slots world_abc_less_c 0 = Some [(0, connections 1 7), (1, connections 2 7)]
   \<and> spares_next (disconnects 0 one_unplugs_three) 0 (5::int)
        [(0, connections 1 7), (1, connections 2 7)] world_abc_less_c
   \<and> emit (disconnects 0 one_unplugs_three) 0 (5::int) world_abc_less_c
        = Some (Inr (world_abc_less_c, [(1, 7, 5), (2, 7, 5)]))
   \<and> m_connected_slots world_ab 0 = Some [(0, connections 1 7), (1, connections 2 8)]
   \<and> distinct (map fst [(0::node, connections 1 7), (1, connections 2 8)])
   \<and> spares_next (disconnects 0 seven_unplugs_itself) 0 (5::int)
        [(0, connections 1 7), (1, connections 2 8)] world_ab
   \<and> emit (disconnects 0 seven_unplugs_itself) 0 (5::int) world_ab
        = Some (Inr (world_ab_less_a, [(1, 7, 5), (2, 8, 5)]))
   \<and> m_connected_slots world_ab_less_a 0 = Some [(1, connections 2 8)]
   \<and> spares_next (disconnects 0 seven_unplugs_itself) 0 (5::int)
        [(1, connections 2 8)] world_ab_less_a
   \<and> emit (disconnects 0 seven_unplugs_itself) 0 (5::int) world_ab_less_a
        = Some (Inr (world_ab_less_a, [(2, 8, 5)]))"
proof -
  let ?L3 = "[(0::node, connections 1 7), (1, connections 2 7), (2, connections 3 7)]"
  let ?L3' = "[(0::node, connections 1 7), (1, connections 2 7)]"
  let ?b3 = "disconnects 0 one_unplugs_three :: int callables"
  have a1: "m_connected_slots world_abc 0 = Some ?L3" by (simp add: world_abc_def)
  have a2: "distinct (map fst ?L3)" by simp
  note a3 = spares_next_world_abc
  from emit_tolerates_disconnects_sparing_next[OF a1 a2 a3] obtain w' called cs' where
    ds: "dispatch_spec ?b3 0 5 ?L3 world_abc = Some (Inr (w', called))"
    and em: "emit ?b3 0 5 world_abc = Some (Inr (w', map (invocation_of 5) called))"
    and l': "m_connected_slots w' 0 = Some cs'"
    and again: "spares_next ?b3 0 5 cs' w' \<longrightarrow>
            (\<exists>w'' called2 cs''.
               dispatch_spec ?b3 0 5 cs' w' = Some (Inr (w'', called2))
               \<and> emit ?b3 0 5 w' = Some (Inr (w'', map (invocation_of 5) called2)))"
    by blast
  from ds have w': "w' = world_abc_less_c" and called: "called = ?L3'"
    using dispatch_spec_world_abc by simp_all
  have a4: "emit ?b3 0 5 world_abc = Some (Inr (world_abc_less_c, [(1, 7, 5), (2, 7, 5)]))"
    using em unfolding w' called by (simp add: invocation_of_def connections_def)
  have a5: "m_connected_slots world_abc_less_c 0 = Some ?L3'"
    by (simp add: world_abc_less_c_def)
  from l' have cs': "cs' = ?L3'" unfolding w' using a5 by simp
  note a6 = spares_next_world_abc_less_c
  from again[unfolded w' cs'] a6 obtain w'' called2 where
    ds2: "dispatch_spec ?b3 0 5 ?L3' world_abc_less_c = Some (Inr (w'', called2))"
    and em2: "emit ?b3 0 5 world_abc_less_c = Some (Inr (w'', map (invocation_of 5) called2))"
    by blast
  from ds2 have "w'' = world_abc_less_c" and "called2 = ?L3'"
    using dispatch_spec_world_abc_less_c by simp_all
  with em2 have a7: "emit ?b3 0 5 world_abc_less_c
      = Some (Inr (world_abc_less_c, [(1, 7, 5), (2, 7, 5)]))"
    by (simp add: invocation_of_def connections_def)
  let ?L2 = "[(0::node, connections 1 7), (1, connections 2 8)]"
  let ?L2' = "[(1::node, connections 2 8)]"
  let ?b2 = "disconnects 0 seven_unplugs_itself :: int callables"
  have self: "\<forall>f r. seven_unplugs_itself f r = None \<or> seven_unplugs_itself f r = Some r"
    by (simp add: seven_unplugs_itself_def)
  have b1: "m_connected_slots world_ab 0 = Some ?L2" by (simp add: world_ab_def)
  have b2: "distinct (map fst ?L2)" by simp
  have tl: "targets_live world_ab ?L2"
    by (simp add: targets_live_def world_ab_def getdest_def connections_def)
  have b3: "spares_next ?b2 0 5 ?L2 world_ab"
    using self b1 b2 tl by (rule self_disconnect_spares_next)
  from emit_tolerates_disconnects_sparing_next[OF b1 b2 b3] obtain v' calledb csb where
    dsb: "dispatch_spec ?b2 0 5 ?L2 world_ab = Some (Inr (v', calledb))"
    and emb: "emit ?b2 0 5 world_ab = Some (Inr (v', map (invocation_of 5) calledb))"
    and lb: "m_connected_slots v' 0 = Some csb"
    and againb: "spares_next ?b2 0 5 csb v' \<longrightarrow>
            (\<exists>w'' called2 cs''.
               dispatch_spec ?b2 0 5 csb v' = Some (Inr (w'', called2))
               \<and> emit ?b2 0 5 v' = Some (Inr (w'', map (invocation_of 5) called2)))"
    by blast
  from dsb have v': "v' = world_ab_less_a" and calledb: "calledb = ?L2"
    using dispatch_spec_world_ab by simp_all
  have b4: "emit ?b2 0 5 world_ab = Some (Inr (world_ab_less_a, [(1, 7, 5), (2, 8, 5)]))"
    using emb unfolding v' calledb by (simp add: invocation_of_def connections_def)
  have b5: "m_connected_slots world_ab_less_a 0 = Some ?L2'"
    by (simp add: world_ab_less_a_def)
  from lb have csb: "csb = ?L2'" unfolding v' using b5 by simp
  have tl': "targets_live world_ab_less_a ?L2'"
    by (simp add: targets_live_def world_ab_less_a_def getdest_def connections_def)
  have b6: "spares_next ?b2 0 5 ?L2' world_ab_less_a"
    using self b5 _ tl' by (rule self_disconnect_spares_next) simp
  from againb[unfolded v' csb] b6 obtain v'' calledb2 where
    dsb2: "dispatch_spec ?b2 0 5 ?L2' world_ab_less_a = Some (Inr (v'', calledb2))"
    and emb2: "emit ?b2 0 5 world_ab_less_a = Some (Inr (v'', map (invocation_of 5) calledb2))"
    by blast
  from dsb2 have "v'' = world_ab_less_a" and "calledb2 = ?L2'"
    using dispatch_spec_world_ab_less_a by simp_all
  with emb2 have b7: "emit ?b2 0 5 world_ab_less_a = Some (Inr (world_ab_less_a, [(2, 8, 5)]))"
    by (simp add: invocation_of_def connections_def)
  from a1 a2 a3 a4 a5 a6 a7 b1 b2 b3 b4 b5 b6 b7 show ?thesis by (intro conjI)
qed


end
